theory Spec2Isabelle
  imports Main
begin

section \<open>Python strings\<close>

text \<open>
  A Python \<open>str\<close> is modelled as a \<open>string\<close> whose characters stand for code points
  (those below 256; every character the program tests for is ASCII).
\<close>

text \<open>\<open>s.startswith(p)\<close>.\<close>

fun starts_with :: "string \<Rightarrow> string \<Rightarrow> bool" where
  "starts_with [] s = True"
| "starts_with (p # ps) [] = False"
| "starts_with (p # ps) (c # cs) = (p = c \<and> starts_with ps cs)"

text \<open>\<open>sub in s\<close>: \<open>sub\<close> occurs in \<open>s\<close> as a contiguous substring.\<close>

fun contains :: "string \<Rightarrow> string \<Rightarrow> bool" where
  "contains sub [] = starts_with sub []"
| "contains sub (c # cs) = (starts_with sub (c # cs) \<or> contains sub cs)"

text \<open>
  \<open>s.split(sep)\<close> for a non-empty separator: the pieces between the leftmost,
  non-overlapping occurrences of \<open>sep\<close>, scanning left to right; \<open>cur\<close> is the piece
  being read. The result is never empty. (Every call in the program passes a non-empty
  literal; Python raises on an empty separator.)
\<close>

fun split_from :: "string \<Rightarrow> string \<Rightarrow> string \<Rightarrow> string list" where
  "split_from sep cur [] = [cur]"
| "split_from sep cur (c # cs) =
     (if starts_with sep (c # cs)
      then cur # split_from sep [] (drop (length sep - 1) cs)
      else split_from sep (cur @ [c]) cs)"

definition py_split :: "string \<Rightarrow> string \<Rightarrow> string list" where
  "py_split sep s = split_from sep [] s"

text \<open>Python truthiness of an optional string: \<open>None\<close> and \<open>''\<close> are falsy.\<close>

fun truthy :: "string option \<Rightarrow> bool" where
  "truthy None = False"
| "truthy (Some s) = (s \<noteq> [])"

section \<open>Identifier Resolver\<close>

text \<open>The character class \<open>[0-9A-Za-z_-]\<close>.\<close>

definition is_id_char :: "char \<Rightarrow> bool" where
  "is_id_char c =
     (let n = (of_char c :: nat)
      in (48 \<le> n \<and> n \<le> 57) \<or> (65 \<le> n \<and> n \<le> 90) \<or> (97 \<le> n \<and> n \<le> 122)
         \<or> c = CHR ''_'' \<or> c = CHR ''-'')"

text \<open>\<open>([0-9A-Za-z_-]{11})\<close> matched at the start of \<open>s\<close>: the captured group.\<close>

definition id_group :: "string \<Rightarrow> string option" where
  "id_group s =
     (let g = take 11 s
      in if length g = 11 \<and> list_all is_id_char g then Some g else None)"

text \<open>
  \<open>(?:v=|\/)([0-9A-Za-z_-]{11}).*\<close> matched at the start of \<open>s\<close>. The two alternatives
  begin with different characters, and the trailing \<open>.*\<close> matches the empty string, so the
  match succeeds exactly when the group does.
\<close>

definition match_here :: "string \<Rightarrow> string option" where
  "match_here s =
     (if starts_with ''v='' s then id_group (drop 2 s)
      else if starts_with ''/'' s then id_group (drop 1 s)
      else None)"

text \<open>\<open>re.search\<close> of that pattern: the match at the leftmost position that has one.\<close>

fun search_video_id :: "string \<Rightarrow> string option" where
  "search_video_id [] = match_here []"
| "search_video_id (c # cs) =
     (case match_here (c # cs) of
        Some g \<Rightarrow> Some g
      | None \<Rightarrow> search_video_id cs)"

text \<open>
  \<open>re.match(r'^[0-9A-Za-z_-]{11}$', url)\<close>: eleven identifier characters, then the end of
  the string; \<open>$\<close> also matches just before a final newline.
\<close>

definition is_bare_id :: "string \<Rightarrow> bool" where
  "is_bare_id url =
     (id_group url \<noteq> None \<and> (drop 11 url = [] \<or> drop 11 url = [CHR 0x0A]))"

text \<open>\<open>extract_video_id_from_url\<close>; \<open>None\<close> is Python's \<open>None\<close>.\<close>

definition extract_video_id_from_url :: "string \<Rightarrow> string option" where
  "extract_video_id_from_url url =
     (if contains ''youtu.be'' url
      then Some (hd (py_split ''?'' (last (py_split ''/'' url))))
      else case search_video_id url of
             Some g \<Rightarrow> Some g
           | None \<Rightarrow> if is_bare_id url then Some url else None)"

section \<open>Transcript Fetcher\<close>

text \<open>
  Whitespace as \<open>\s\<close> and \<open>str.strip\<close> see it, among the code points below 256:
  tab to carriage return, the four separators 28 to 31, the space, and the two Latin-1
  spaces 133 and 160.
\<close>

definition is_space :: "char \<Rightarrow> bool" where
  "is_space c =
     (let n = (of_char c :: nat)
      in (9 \<le> n \<and> n \<le> 13) \<or> (28 \<le> n \<and> n \<le> 32) \<or> n = 133 \<or> n = 160)"

text \<open>\<open>sep.join(xs)\<close>.\<close>

fun py_join :: "string \<Rightarrow> string list \<Rightarrow> string" where
  "py_join sep [] = []"
| "py_join sep [x] = x"
| "py_join sep (x # y # ys) = x @ sep @ py_join sep (y # ys)"

text \<open>\<open>re.sub(r'\s+', ' ', s)\<close>: each maximal run of whitespace becomes one space.\<close>

function sub_spaces :: "string \<Rightarrow> string" where
  "sub_spaces [] = []"
| "sub_spaces (c # cs) =
     (if is_space c then CHR '' '' # sub_spaces (dropWhile is_space cs)
      else c # sub_spaces cs)"
  by pat_completeness auto
termination
  by (relation "measure length") (auto simp: less_Suc_eq_le length_dropWhile_le)

text \<open>\<open>s.strip()\<close>.\<close>

definition strip :: "string \<Rightarrow> string" where
  "strip s = rev (dropWhile is_space (rev (dropWhile is_space s)))"

text \<open>Lines 52 and 55: join the segment texts with spaces, then clean up.\<close>

definition full_transcript :: "string list \<Rightarrow> string" where
  "full_transcript texts = strip (sub_spaces (py_join '' '' texts))"

text \<open>
  The result dictionary of one fetch. The \<open>error\<close> key is present only in the dictionary
  built by the \<open>except\<close> clause (\<open>error = None\<close> is its absence); \<open>transcript = None\<close> is
  Python's \<open>None\<close>.
\<close>

record transcript_result =
  video_id :: string
  transcript :: "string option"
  error :: "string option"

text \<open>Exceptions that leave a method of the extractor; the string is \<open>str(e)\<close>.\<close>

datatype exn =
    ValueError string
  | HttpError string
  | FetchFailure string
  | OSError string

text \<open>
  What the transcript service does on one request (the \<open>try\<close> body up to line 49):
  it delivers the text of each segment, or raises one of the two exceptions the program
  catches, or raises anything else.
\<close>

datatype fetch_outcome =
    Segments "string list"
  | TranscriptsDisabled string
  | NoTranscriptFound string
  | OtherFailure string

text \<open>Replies of the content API: \<open>execute()\<close> raises \<open>HttpError\<close> or returns a response.\<close>

datatype page_reply =
    PageError string
  | Page "string list" "string option"

datatype listing_reply =
    ListingError string
  | Listing "string list"

text \<open>
  The world outside the program. Each remote endpoint answers as a function of its
  arguments and of the number of requests made before, so that the same request may be
  answered differently when it is repeated.
  \<^item> \<open>transcripts n video_id language\<close>: the transcript service, \<open>n\<close> fetches made before;
  \<^item> \<open>playlist_items n playlistId maxResults pageToken\<close>: the video identifiers of the
    page's items and \<open>nextPageToken\<close>;
  \<^item> \<open>channels_by_id n id\<close>: the uploads playlist of each channel item;
  \<^item> \<open>channels_by_username n name\<close>, \<open>search_channels n q\<close>: the \<open>id\<close> of each item;
  \<^item> \<open>path_exists\<close>: \<open>os.path.exists\<close>;
  \<^item> \<open>makedirs n path\<close>: \<open>os.makedirs(path)\<close> after \<open>n\<close> file operations, \<open>None\<close> when it
    succeeds and the message of the \<open>OSError\<close> it raises otherwise;
  \<^item> \<open>write_file n path text\<close>: opening \<open>path\<close> for writing and writing \<open>text\<close> to it
    (lines 194 and 195) after \<open>n\<close> file operations, in the same way.
\<close>

record services =
  transcripts :: "nat \<Rightarrow> string \<Rightarrow> string option \<Rightarrow> fetch_outcome"
  playlist_items :: "nat \<Rightarrow> string \<Rightarrow> int \<Rightarrow> string option \<Rightarrow> page_reply"
  channels_by_id :: "nat \<Rightarrow> string \<Rightarrow> listing_reply"
  channels_by_username :: "nat \<Rightarrow> string \<Rightarrow> listing_reply"
  search_channels :: "nat \<Rightarrow> string \<Rightarrow> listing_reply"
  path_exists :: "string \<Rightarrow> bool"
  makedirs :: "nat \<Rightarrow> string \<Rightarrow> string option"
  write_file :: "nat \<Rightarrow> string \<Rightarrow> string \<Rightarrow> string option"

text \<open>
  What the program has done to the world so far, oldest first: the content API requests
  it executed, the transcript fetches it made, the file operations it attempted (also
  the one that failed), and how often it slept (always for the default delay: no call in
  the program passes another). Printing is left out.
\<close>

datatype request =
    PlaylistItemsList string int "string option"
  | ChannelsListId string
  | ChannelsListForUsername string
  | SearchListChannel string

datatype fs_op =
    MakeDirs string
  | WriteFile string string

record world =
  requests :: "request list"
  fetches :: "(string \<times> string option) list"
  fs_ops :: "fs_op list"
  sleeps :: nat

definition executed :: "request \<Rightarrow> world \<Rightarrow> world" where
  "executed r w = w\<lparr>requests := requests w @ [r]\<rparr>"

text \<open>
  The track requested at lines 44 to 49: the one in \<open>language\<close> when that is truthy, the
  default track (\<open>None\<close>) otherwise.
\<close>

definition asked :: "string option \<Rightarrow> string option" where
  "asked language = (if truthy language then language else None)"

text \<open>
  \<open>get_video_transcript\<close>. Only the two caught exceptions become a result with \<open>error\<close>;
  any other leaves the method.
\<close>

definition get_video_transcript ::
  "services \<Rightarrow> string \<Rightarrow> string option \<Rightarrow> world \<Rightarrow> (exn + transcript_result) \<times> world" where
  "get_video_transcript svc vid language w =
     (let lang = asked language;
          w1 = w\<lparr>fetches := fetches w @ [(vid, lang)]\<rparr>
      in case transcripts svc (length (fetches w)) vid lang of
           Segments texts \<Rightarrow>
             (Inr \<lparr>video_id = vid, transcript = Some (full_transcript texts), error = None\<rparr>, w1)
         | TranscriptsDisabled msg \<Rightarrow>
             (Inr \<lparr>video_id = vid, transcript = None, error = Some msg\<rparr>, w1)
         | NoTranscriptFound msg \<Rightarrow>
             (Inr \<lparr>video_id = vid, transcript = None, error = Some msg\<rparr>, w1)
         | OtherFailure msg \<Rightarrow> (Inl (FetchFailure msg), w1))"

section \<open>Collection Enumerator\<close>

text \<open>The extractor object: \<open>self.api_key\<close>; the client \<open>self.youtube\<close> is the content API.\<close>

record extractor =
  api_key :: "string option"

text \<open>
  The \<open>while True\<close> loop of \<open>get_playlist_video_ids\<close>, from the state
  (\<open>video_ids\<close>, \<open>next_page_token\<close>). It need not end: \<open>None\<close> is a run that never returns.
\<close>

partial_function (option) playlist_loop ::
  "services \<Rightarrow> string \<Rightarrow> int \<Rightarrow> string list \<Rightarrow> string option \<Rightarrow> world
     \<Rightarrow> (string list \<times> world) option" where
  "playlist_loop svc playlist_id max_results video_ids next_page_token w =
     (let page_size = min (max_results - int (length video_ids)) 50;
          w1 = executed (PlaylistItemsList playlist_id page_size next_page_token) w
      in case playlist_items svc (length (requests w)) playlist_id page_size next_page_token of
           PageError e \<Rightarrow> Some (video_ids, w1)
         | Page items token \<Rightarrow>
             (if \<not> truthy token \<or> max_results \<le> int (length (video_ids @ items))
              then Some (video_ids @ items, w1)
              else playlist_loop svc playlist_id max_results (video_ids @ items) token w1))"

declare playlist_loop.simps [code]

definition get_playlist_video_ids ::
  "services \<Rightarrow> extractor \<Rightarrow> string \<Rightarrow> int \<Rightarrow> world \<Rightarrow> ((exn + string list) \<times> world) option" where
  "get_playlist_video_ids svc self playlist_id max_results w =
     (if \<not> truthy (api_key self)
      then Some (Inl (ValueError ''YouTube API key is required for playlist operations''), w)
      else case playlist_loop svc playlist_id max_results [] None w of
             None \<Rightarrow> None
           | Some (video_ids, w1) \<Rightarrow> Some (Inr video_ids, w1))"

definition get_channel_video_ids ::
  "services \<Rightarrow> extractor \<Rightarrow> string \<Rightarrow> int \<Rightarrow> world \<Rightarrow> ((exn + string list) \<times> world) option" where
  "get_channel_video_ids svc self channel_id max_results w =
     (if \<not> truthy (api_key self)
      then Some (Inl (ValueError ''YouTube API key is required for channel operations''), w)
      else case channels_by_id svc (length (requests w)) channel_id of
             ListingError e \<Rightarrow> Some (Inl (HttpError e), executed (ChannelsListId channel_id) w)
           | Listing [] \<Rightarrow> Some (Inr [], executed (ChannelsListId channel_id) w)
           | Listing (uploads # rest) \<Rightarrow>
               get_playlist_video_ids svc self uploads max_results
                 (executed (ChannelsListId channel_id) w))"

section \<open>Batch Orchestrator\<close>

text \<open>\<open>os.path.join(a, b)\<close> on POSIX.\<close>

definition path_join :: "string \<Rightarrow> string \<Rightarrow> string" where
  "path_join a b =
     (if starts_with ''/'' b then b
      else if a = [] \<or> last a = CHR ''/'' then a @ b
      else a @ ''/'' @ b)"

text \<open>
  Lines 192 to 196: the transcript is saved when both \<open>output_dir\<close> and it are truthy.
  Opening or writing the file may raise; the result is the exception raised, if any.
\<close>

definition save_transcript ::
  "services \<Rightarrow> string option \<Rightarrow> transcript_result \<Rightarrow> world \<Rightarrow> exn option \<times> world" where
  "save_transcript svc output_dir r w =
     (case (output_dir, transcript r) of
        (Some d, Some t) \<Rightarrow>
          (if d \<noteq> [] \<and> t \<noteq> []
           then (let output_file = path_join d (video_id r @ ''.txt'')
                 in (map_option OSError (write_file svc (length (fs_ops w)) output_file t),
                     w\<lparr>fs_ops := fs_ops w @ [WriteFile output_file t]\<rparr>))
           else (None, w))
      | _ \<Rightarrow> (None, w))"

text \<open>
  The \<open>for\<close> loop of \<open>extract_transcripts_batch\<close> over the identifiers still to do, with
  the \<open>results\<close> so far. An exception of a fetch or of saving a transcript ends the loop
  and the method: no \<open>try\<close> surrounds lines 188 to 196.
\<close>

fun batch_loop ::
  "services \<Rightarrow> string option \<Rightarrow> string option \<Rightarrow> transcript_result list \<Rightarrow> string list
     \<Rightarrow> world \<Rightarrow> (exn + transcript_result list) \<times> world" where
  "batch_loop svc language output_dir results [] w = (Inr results, w)"
| "batch_loop svc language output_dir results (vid # rest) w =
     (case get_video_transcript svc vid language w of
        (Inl e, w1) \<Rightarrow> (Inl e, w1)
      | (Inr transcript_data, w1) \<Rightarrow>
          (case save_transcript svc output_dir transcript_data w1 of
             (Some e, w2) \<Rightarrow> (Inl e, w2)
           | (None, w2) \<Rightarrow>
               (let w3 = (if rest \<noteq> [] then w2\<lparr>sleeps := Suc (sleeps w2)\<rparr> else w2)
                in batch_loop svc language output_dir (results @ [transcript_data]) rest w3)))"

text \<open>
  \<open>extract_transcripts_batch\<close>. Lines 182 and 183 create \<open>output_dir\<close> when it is truthy
  and does not exist; an exception of \<open>os.makedirs\<close> leaves the method before any fetch.
\<close>

definition extract_transcripts_batch ::
  "services \<Rightarrow> string list \<Rightarrow> string option \<Rightarrow> string option \<Rightarrow> world
     \<Rightarrow> (exn + transcript_result list) \<times> world" where
  "extract_transcripts_batch svc video_ids language output_dir w =
     (case output_dir of
        None \<Rightarrow> batch_loop svc language output_dir [] video_ids w
      | Some d \<Rightarrow>
          (if d \<noteq> [] \<and> \<not> path_exists svc d
           then (let w0 = w\<lparr>fs_ops := fs_ops w @ [MakeDirs d]\<rparr>
                 in case makedirs svc (length (fs_ops w)) d of
                      Some msg \<Rightarrow> (Inl (OSError msg), w0)
                    | None \<Rightarrow> batch_loop svc language output_dir [] video_ids w0)
           else batch_loop svc language output_dir [] video_ids w))"

section \<open>Dispatcher\<close>

text \<open>The dictionaries \<open>extract_from_url\<close> returns, by their keys.\<close>

datatype url_result =
    ErrorResult string
  | VideoResult transcript_result
  | PlaylistResult string "transcript_result list"
  | ChannelResult string "transcript_result list"

text \<open>\<open>re.search(r'list=([^&]+)', url)\<close>: the group of the leftmost match.\<close>

definition list_param_here :: "string \<Rightarrow> string option" where
  "list_param_here s =
     (if starts_with ''list='' s
      then (let g = takeWhile (\<lambda>c. c \<noteq> CHR ''&'') (drop 5 s)
            in if g = [] then None else Some g)
      else None)"

fun search_list_param :: "string \<Rightarrow> string option" where
  "search_list_param [] = None"
| "search_list_param (c # cs) =
     (case list_param_here (c # cs) of
        Some g \<Rightarrow> Some g
      | None \<Rightarrow> search_list_param cs)"

text \<open>Lines 229 to 233 and 267 to 271: enumerate with the default cap, then run the batch.\<close>

definition transcripts_of ::
  "services \<Rightarrow> (string \<Rightarrow> transcript_result list \<Rightarrow> url_result) \<Rightarrow> string \<Rightarrow> string option
     \<Rightarrow> ((exn + string list) \<times> world) option \<Rightarrow> ((exn + url_result) \<times> world) option" where
  "transcripts_of svc wrap ident language enumerated =
     (case enumerated of
        None \<Rightarrow> None
      | Some (Inl e, w1) \<Rightarrow> Some (Inl e, w1)
      | Some (Inr video_ids, w1) \<Rightarrow>
          (case extract_transcripts_batch svc video_ids language None w1 of
             (Inl e, w2) \<Rightarrow> Some (Inl e, w2)
           | (Inr results, w2) \<Rightarrow> Some (Inr (wrap ident results), w2)))"

text \<open>
  Lines 241 to 265: the channel identifier of a channel URL, or the error dictionary
  returned instead.
\<close>

definition channel_id_of ::
  "services \<Rightarrow> string \<Rightarrow> world \<Rightarrow> (string + string) \<times> world" where
  "channel_id_of svc url w =
     (if contains ''youtube.com/channel/'' url
      then (Inr (hd (py_split ''/'' (py_split ''youtube.com/channel/'' url ! 1))), w)
      else
        (let username = last (py_split ''/'' url);
             n = length (requests w);
             (reply, w1) =
               (if contains ''youtube.com/c/'' url
                then (search_channels svc n username, executed (SearchListChannel username) w)
                else (channels_by_username svc n username,
                      executed (ChannelsListForUsername username) w))
         in case reply of
              ListingError e \<Rightarrow> (Inl (''YouTube API error: '' @ e), w1)
            | Listing [] \<Rightarrow> (Inl (''Channel not found: '' @ username), w1)
            | Listing (ident # rest) \<Rightarrow> (Inr ident, w1)))"

definition extract_from_url ::
  "services \<Rightarrow> extractor \<Rightarrow> string \<Rightarrow> string option \<Rightarrow> world
     \<Rightarrow> ((exn + url_result) \<times> world) option" where
  "extract_from_url svc self url language w =
     (if contains ''youtube.com/watch'' url \<or> contains ''youtu.be/'' url then
        (case extract_video_id_from_url url of
           None \<Rightarrow> Some (Inr (ErrorResult ''Invalid YouTube video URL''), w)
         | Some vid \<Rightarrow>
             (if vid = [] then Some (Inr (ErrorResult ''Invalid YouTube video URL''), w)
              else case get_video_transcript svc vid language w of
                     (Inl e, w1) \<Rightarrow> Some (Inl e, w1)
                   | (Inr r, w1) \<Rightarrow> Some (Inr (VideoResult r), w1)))
      else if contains ''youtube.com/playlist'' url then
        (case search_list_param url of
           None \<Rightarrow> Some (Inr (ErrorResult ''Invalid YouTube playlist URL''), w)
         | Some playlist_id \<Rightarrow>
             transcripts_of svc PlaylistResult playlist_id language
               (get_playlist_video_ids svc self playlist_id 50 w))
      else if contains ''youtube.com/channel/'' url \<or> contains ''youtube.com/c/'' url
              \<or> contains ''youtube.com/user/'' url then
        (if \<not> truthy (api_key self)
         then Some (Inr (ErrorResult ''YouTube API key required for channel operations''), w)
         else case channel_id_of svc url w of
                (Inl msg, w1) \<Rightarrow> Some (Inr (ErrorResult msg), w1)
              | (Inr channel_id, w1) \<Rightarrow>
                  transcripts_of svc ChannelResult channel_id language
                    (get_channel_video_ids svc self channel_id 50 w1))
      else Some (Inr (ErrorResult ''URL not recognized as YouTube video, playlist, or channel''), w))"

section \<open>Notions used in the statements\<close>

text \<open>An outcome that \<open>get_video_transcript\<close> turns into a result: anything it does not let out.\<close>

definition caught :: "fetch_outcome \<Rightarrow> bool" where
  "caught outcome = (case outcome of OtherFailure msg \<Rightarrow> False | _ \<Rightarrow> True)"

text \<open>
  The outcome of the fetch for item \<open>i\<close> of a batch over \<open>video_ids\<close> that starts in the
  world \<open>w\<close>.
\<close>

definition item_outcome ::
  "services \<Rightarrow> world \<Rightarrow> string option \<Rightarrow> string list \<Rightarrow> nat \<Rightarrow> fetch_outcome" where
  "item_outcome svc w language video_ids i =
     transcripts svc (length (fetches w) + i) (video_ids ! i) (asked language)"

text \<open>The dictionary built at lines 57 to 68 from a caught outcome.\<close>

definition result_for :: "string \<Rightarrow> fetch_outcome \<Rightarrow> transcript_result" where
  "result_for vid outcome =
     (case outcome of
        Segments texts \<Rightarrow> \<lparr>video_id = vid, transcript = Some (full_transcript texts), error = None\<rparr>
      | TranscriptsDisabled msg \<Rightarrow> \<lparr>video_id = vid, transcript = None, error = Some msg\<rparr>
      | NoTranscriptFound msg \<Rightarrow> \<lparr>video_id = vid, transcript = None, error = Some msg\<rparr>
      | OtherFailure msg \<Rightarrow> \<lparr>video_id = vid, transcript = None, error = None\<rparr>)"

text \<open>
  A run of the pagination loop is described by the pages it was given, each with the
  cursor that came with it. \<open>collected pages j\<close> is \<open>len(video_ids)\<close> after the first
  \<open>j\<close> pages, \<open>cursor_after pages j\<close> is \<open>next_page_token\<close> at that moment, and
  \<open>page_request\<close> is the request line 113 builds from them.
\<close>

definition collected :: "(string list \<times> string) list \<Rightarrow> nat \<Rightarrow> nat" where
  "collected pages j = length (concat (map fst (take j pages)))"

definition cursor_after :: "(string list \<times> string) list \<Rightarrow> nat \<Rightarrow> string option" where
  "cursor_after pages j = (if j = 0 then None else Some (snd (pages ! (j - 1))))"

definition page_request :: "string \<Rightarrow> int \<Rightarrow> (string list \<times> string) list \<Rightarrow> nat \<Rightarrow> request" where
  "page_request playlist_id max_results pages j =
     PlaylistItemsList playlist_id (min (max_results - int (collected pages j)) 50)
       (cursor_after pages j)"

text \<open>The world after the requests \<open>rs\<close> have been executed in \<open>w\<close>, in this order.\<close>

definition after_requests :: "world \<Rightarrow> request list \<Rightarrow> world" where
  "after_requests w rs = w\<lparr>requests := requests w @ rs\<rparr>"

text \<open>
  An endpoint that pages honestly through the collection \<open>coll\<close> answers a request for
  \<open>page_size\<close> items from offset \<open>k\<close> with the next \<open>page_size\<close> items, and with a cursor
  for the offset reached while items remain. \<open>cur k\<close> is its cursor for the offset
  \<open>k\<close>; the first request carries no cursor. This is asked of an endpoint only for the
  page sizes from 1 to 50, the most the content API serves and the loop requests.
\<close>

definition cursor_at :: "(nat \<Rightarrow> string) \<Rightarrow> nat \<Rightarrow> string option" where
  "cursor_at cur k = (if k = 0 then None else Some (cur k))"

definition honest_page :: "string list \<Rightarrow> (nat \<Rightarrow> string) \<Rightarrow> int \<Rightarrow> nat \<Rightarrow> page_reply" where
  "honest_page coll cur page_size k =
     Page (take (nat page_size) (drop k coll))
          (if k + nat page_size < length coll then Some (cur (k + nat page_size)) else None)"

text \<open>
  With such an endpoint every page but the last is full, so \<open>50 * j\<close> identifiers have
  been collected before request \<open>j\<close>: \<open>full_request\<close> is that request as line 113 builds
  it, and \<open>page_count max_results n\<close> is the number of pages that hold the first
  \<open>min max_results n\<close> of \<open>n\<close> items (one page when there is none).
\<close>

definition full_request :: "string \<Rightarrow> int \<Rightarrow> (nat \<Rightarrow> string) \<Rightarrow> nat \<Rightarrow> request" where
  "full_request playlist_id max_results cur j =
     PlaylistItemsList playlist_id (min (max_results - int (50 * j)) 50) (cursor_at cur (50 * j))"

definition page_count :: "int \<Rightarrow> nat \<Rightarrow> nat" where
  "page_count max_results n = (if n = 0 then 1 else (min (nat max_results) n + 49) div 50)"


text \<open>
  The endpoint honours \<open>maxResults\<close>: a page never holds more items than were asked for.
\<close>

abbreviation bounded_pages :: "services \<Rightarrow> bool" where
  "bounded_pages svc \<equiv>
     (\<forall>n playlist_id page_size token items next.
        0 < page_size \<and> playlist_items svc n playlist_id page_size token = Page items next
        \<longrightarrow> int (length items) \<le> page_size)"

text \<open>
  The words of a text, as the specification reads a normalized transcript: the maximal
  runs of characters that are not whitespace, in order. A text whose runs of whitespace
  are collapsed to one space each and whose ends are trimmed is its words joined by
  single spaces.
\<close>

function words_of :: "string \<Rightarrow> string list" where
  "words_of s =
     (case dropWhile is_space s of
        [] \<Rightarrow> []
      | c # cs \<Rightarrow> takeWhile (\<lambda>x. \<not> is_space x) (c # cs)
                  # words_of (dropWhile (\<lambda>x. \<not> is_space x) (c # cs)))"
  by pat_completeness auto
termination
proof (relation "measure length")
  show "wf (measure length)" by simp
next
  fix s :: string and c cs
  assume a: "dropWhile is_space s = c # cs"
  have "\<not> is_space c" using a hd_dropWhile[of is_space s] by auto
  then have "length (dropWhile (\<lambda>x. \<not> is_space x) (c # cs)) \<le> length cs"
    by (simp add: length_dropWhile_le)
  moreover have "length (c # cs) \<le> length s"
    using a length_dropWhile_le[of is_space s] by simp
  ultimately show "(dropWhile (\<lambda>x. \<not> is_space x) (c # cs), s) \<in> measure length" by simp
qed

declare words_of.simps [simp del]

text \<open>
  The file operations of a batch over \<open>video_ids\<close> that starts in the world \<open>w\<close>.
  \<open>directory_ready\<close>: creating \<open>output_dir\<close>, where line 183 does so, succeeds.
  \<open>writes_succeed \<dots> k\<close>: writing the transcript of each of the first \<open>k\<close> items, where
  line 194 does so (a truthy \<open>output_dir\<close>, a fetch that delivers a non-empty transcript),
  succeeds whenever it is attempted.
\<close>

abbreviation directory_ready :: "services \<Rightarrow> string option \<Rightarrow> world \<Rightarrow> bool" where
  "directory_ready svc output_dir w \<equiv>
     (\<forall>d. output_dir = Some d \<and> d \<noteq> [] \<and> \<not> path_exists svc d
          \<longrightarrow> makedirs svc (length (fs_ops w)) d = None)"

abbreviation writes_succeed ::
  "services \<Rightarrow> string option \<Rightarrow> world \<Rightarrow> string option \<Rightarrow> string list \<Rightarrow> nat \<Rightarrow> bool" where
  "writes_succeed svc output_dir w language video_ids k \<equiv>
     (\<forall>d n texts. \<forall>i<k.
        output_dir = Some d \<and> d \<noteq> []
        \<and> item_outcome svc w language video_ids i = Segments texts
        \<and> full_transcript texts \<noteq> []
        \<longrightarrow> write_file svc n (path_join d (video_ids ! i @ ''.txt'')) (full_transcript texts)
            = None)"

section \<open>Example worlds\<close>

text \<open>The world before the program has done anything.\<close>

definition fresh :: world where
  "fresh = \<lparr>requests = [], fetches = [], fs_ops = [], sleeps = 0\<rparr>"

text \<open>
  A playlist endpoint that pages through the collection \<open>coll\<close>: the cursor for offset
  \<open>k\<close> is a string of length \<open>k\<close>, a page holds the next \<open>maxResults\<close> items, and a
  cursor is returned while items remain.
\<close>

definition paged :: "string list \<Rightarrow> nat \<Rightarrow> string \<Rightarrow> int \<Rightarrow> string option \<Rightarrow> page_reply" where
  "paged coll n playlist_id page_size token =
     (let k = (case token of None \<Rightarrow> 0 | Some t \<Rightarrow> length t)
      in Page (take (nat page_size) (drop k coll))
              (if k + nat page_size < length coll
               then Some (replicate (k + nat page_size) CHR ''t'') else None))"

text \<open>
  Services built from a transcript service and a playlist endpoint; every channel has
  the uploads playlist \<open>UU\<close>, no user name is known, searching fails, no path exists yet
  and every file operation succeeds.
\<close>

definition services_of ::
  "(nat \<Rightarrow> string \<Rightarrow> string option \<Rightarrow> fetch_outcome)
     \<Rightarrow> (nat \<Rightarrow> string \<Rightarrow> int \<Rightarrow> string option \<Rightarrow> page_reply) \<Rightarrow> services" where
  "services_of tr pl =
     \<lparr>transcripts = tr, playlist_items = pl,
      channels_by_id = (\<lambda>n c. Listing [''UU'']),
      channels_by_username = (\<lambda>n u. Listing []),
      search_channels = (\<lambda>n q. ListingError ''quota''),
      path_exists = (\<lambda>p. False),
      makedirs = (\<lambda>n p. None),
      write_file = (\<lambda>n p t. None)\<rparr>"

text \<open>A transcript service that always delivers the same two segments.\<close>

definition two_segments :: "nat \<Rightarrow> string \<Rightarrow> string option \<Rightarrow> fetch_outcome" where
  "two_segments n vid lang = Segments [''hello '', ''world'']"

text \<open>
  A transcript service that answers its \<open>n\<close>-th request with the \<open>n\<close>-th outcome of a
  list, and finds no transcript after that.
\<close>

definition scripted :: "fetch_outcome list \<Rightarrow> nat \<Rightarrow> string \<Rightarrow> string option \<Rightarrow> fetch_outcome" where
  "scripted outcomes n vid lang =
     (if n < length outcomes then outcomes ! n else NoTranscriptFound ''no transcript'')"

text \<open>The second fetch finds transcripts disabled.\<close>

definition one_disabled :: services where
  "one_disabled =
     services_of (scripted [Segments [''x''], TranscriptsDisabled ''off'', Segments [''y'']]) (paged [])"

text \<open>The second fetch fails with an exception that is not caught.\<close>

definition one_reset :: services where
  "one_reset =
     services_of (scripted [Segments [''x''], OtherFailure ''connection reset'', Segments [''y'']])
       (paged [])"

text \<open>
  A playlist endpoint that answers its \<open>n\<close>-th request with the \<open>n\<close>-th page of a list,
  each with a cursor, and fails with an HTTP error after that.
\<close>

definition then_error :: "(string list \<times> string) list \<Rightarrow> string
    \<Rightarrow> nat \<Rightarrow> string \<Rightarrow> int \<Rightarrow> string option \<Rightarrow> page_reply" where
  "then_error pages e n playlist_id page_size token =
     (if n < length pages then Page (fst (pages ! n)) (Some (snd (pages ! n))) else PageError e)"

definition two_pages :: "(string list \<times> string) list" where
  "two_pages = [([''a'', ''b''], ''t1''), ([''c''], ''t2'')]"


text \<open>A collection of \<open>n\<close> different identifiers, and the cursors of \<open>paged\<close>.\<close>

definition videos :: "nat \<Rightarrow> string list" where
  "videos n = map (\<lambda>i. replicate (Suc i) CHR ''v'') [0..<n]"

definition ticks :: "nat \<Rightarrow> string" where
  "ticks k = replicate k CHR ''t''"

text \<open>The URL of the playlist \<open>PL\<close>.\<close>

definition playlist_url :: string where
  "playlist_url = ''https://www.youtube.com/playlist?list=PL''"

text \<open>Two segments whose texts join to \<open>a\n\n  b   c\<close>.\<close>

definition broken_lines :: "string list" where
  "broken_lines = [''a'' @ [CHR 0x0A, CHR 0x0A], '' b   c'']"

text \<open>Every fetch succeeds, and no file can be written.\<close>

definition read_only :: services where
  "read_only =
     (services_of two_segments (paged []))\<lparr>write_file := (\<lambda>n p t. Some ''Permission denied'')\<rparr>"

section \<open>Properties of the Identifier Resolver\<close>

text \<open>
  C3 (fails on the code). The claim: every malformed input resolves to \<open>None\<close>, in
  particular one with the short-link marker whose last path segment is not an
  eleven-character identifier. The code returns that segment as it is: here the
  three-character \<open>abc\<close>.
\<close>

theorem short_link_segment_not_validated:
  "extract_video_id_from_url ''https://youtu.be/abc'' = Some ''abc''"
  by (simp add: extract_video_id_from_url_def py_split_def)

text \<open>
  C6 (fails on the code). The claim: every valid long-form watch URL resolves to the
  identifier it embeds. A watch URL that carries the short-link marker in its query is
  taken for a short link, and its last path segment up to the \<open>?\<close> is returned.
\<close>

theorem watch_url_taken_for_short_link:
  "extract_video_id_from_url ''https://www.youtube.com/watch?v=dQw4w9WgXcQ&feature=youtu.be''
     = Some ''watch''"
  by (simp add: extract_video_id_from_url_def py_split_def)

section \<open>Properties of the Collection Enumerator\<close>

text \<open>
  C8. On an extractor without a credential (\<open>api_key\<close> is \<open>None\<close> or empty) both
  enumerations raise \<open>ValueError\<close>, and the world is as before: no request was executed.
\<close>

theorem missing_credential_raises_first:
  "\<not> truthy (api_key self) \<Longrightarrow>
     get_playlist_video_ids svc self playlist_id max_results w =
       Some (Inl (ValueError ''YouTube API key is required for playlist operations''), w)
     \<and> get_channel_video_ids svc self channel_id max_results w =
       Some (Inl (ValueError ''YouTube API key is required for channel operations''), w)"
  by (simp add: get_playlist_video_ids_def get_channel_video_ids_def)

theorem missing_credential_raises_first_witness:
  "\<not> truthy (api_key \<lparr>api_key = None\<rparr>)
   \<and> get_playlist_video_ids (services_of two_segments (paged [''a'', ''b''])) \<lparr>api_key = None\<rparr>
       ''PL1'' 50 fresh =
       Some (Inl (ValueError ''YouTube API key is required for playlist operations''), fresh)
   \<and> get_channel_video_ids (services_of two_segments (paged [''a'', ''b''])) \<lparr>api_key = None\<rparr>
       ''UC1'' 50 fresh =
       Some (Inl (ValueError ''YouTube API key is required for channel operations''), fresh)"
  using missing_credential_raises_first
          [of "\<lparr>api_key = None\<rparr>" "services_of two_segments (paged [''a'', ''b''])"
              "''PL1''" 50 fresh "''UC1''"]
  by simp

section \<open>Properties of the Dispatcher\<close>

text \<open>
  C4 (fails on the code). The claim: a bare eleven-character identifier given to
  \<open>extract_from_url\<close> is treated as a video and its transcript result is returned. The
  resolver accepts the identifier, but the dispatcher only calls the resolver for inputs
  that contain \<open>youtube.com/watch\<close> or \<open>youtu.be/\<close>; the bare identifier falls through to
  the last line, with no fetch made.
\<close>

theorem bare_identifier_not_recognized:
  "extract_video_id_from_url ''dQw4w9WgXcQ'' = Some ''dQw4w9WgXcQ''
   \<and> extract_from_url svc self ''dQw4w9WgXcQ'' language w =
       Some (Inr (ErrorResult ''URL not recognized as YouTube video, playlist, or channel''), w)"
  by (simp add: extract_from_url_def extract_video_id_from_url_def match_here_def
        id_group_def is_bare_id_def is_id_char_def)

section \<open>Properties of the Batch Orchestrator\<close>

lemma fetch_caught:
  "caught (transcripts svc (length (fetches w)) vid (asked language)) \<Longrightarrow>
   get_video_transcript svc vid language w =
     (Inr (result_for vid (transcripts svc (length (fetches w)) vid (asked language))),
      w\<lparr>fetches := fetches w @ [(vid, asked language)]\<rparr>)"
  by (cases "transcripts svc (length (fetches w)) vid (asked language)")
     (simp_all add: get_video_transcript_def caught_def result_for_def Let_def)

lemma fetch_uncaught:
  "transcripts svc (length (fetches w)) vid (asked language) = OtherFailure msg \<Longrightarrow>
   get_video_transcript svc vid language w =
     (Inl (FetchFailure msg), w\<lparr>fetches := fetches w @ [(vid, asked language)]\<rparr>)"
  by (simp add: get_video_transcript_def Let_def)

lemma fetches_save:
  "save_transcript svc out r w = (x, w2) \<Longrightarrow> fetches w2 = fetches w"
  by (auto simp add: save_transcript_def Let_def split: option.splits if_splits)

lemma save_succeeds:
  assumes "\<forall>d t. out = Some d \<and> d \<noteq> [] \<and> transcript r = Some t \<and> t \<noteq> []
             \<longrightarrow> write_file svc (length (fs_ops w)) (path_join d (video_id r @ ''.txt'')) t = None"
  shows "\<exists>w2. save_transcript svc out r w = (None, w2)"
proof (cases out)
  case None
  then show ?thesis by (simp add: save_transcript_def)
next
  case d: (Some d)
  show ?thesis
  proof (cases "transcript r")
    case None
    then show ?thesis using d by (simp add: save_transcript_def)
  next
    case t: (Some t)
    show ?thesis
    proof (cases "d \<noteq> [] \<and> t \<noteq> []")
      case True
      with assms d t
      have "write_file svc (length (fs_ops w)) (path_join d (video_id r @ ''.txt'')) t = None"
        by blast
      then show ?thesis using d t True by (simp add: save_transcript_def Let_def)
    next
      case False
      then show ?thesis using d t by (auto simp add: save_transcript_def)
    qed
  qed
qed

lemma video_id_result_for [simp]: "video_id (result_for vid outcome) = vid"
  by (cases outcome) (simp_all add: result_for_def)

lemma result_for_error:
  "outcome = TranscriptsDisabled msg \<or> outcome = NoTranscriptFound msg \<Longrightarrow>
   result_for vid outcome = \<lparr>video_id = vid, transcript = None, error = Some msg\<rparr>"
  by (auto simp: result_for_def)

lemma transcript_result_for:
  "transcript (result_for vid outcome) = Some t \<Longrightarrow>
   \<exists>texts. outcome = Segments texts \<and> t = full_transcript texts"
  by (cases outcome) (auto simp add: result_for_def)

lemma batch_step:
  assumes c0: "caught (transcripts svc (length (fetches w)) v (asked language))"
    and f0: "\<forall>d n texts. out = Some d \<and> d \<noteq> []
               \<and> transcripts svc (length (fetches w)) v (asked language) = Segments texts
               \<and> full_transcript texts \<noteq> []
               \<longrightarrow> write_file svc n (path_join d (v @ ''.txt'')) (full_transcript texts) = None"
  shows "\<exists>w3. batch_loop svc language out results (v # vs) w
               = batch_loop svc language out
                   (results @ [result_for v (transcripts svc (length (fetches w)) v (asked language))])
                   vs w3
             \<and> fetches w3 = fetches w @ [(v, asked language)]"
proof -
  define r where "r = result_for v (transcripts svc (length (fetches w)) v (asked language))"
  define w1 where "w1 = w\<lparr>fetches := fetches w @ [(v, asked language)]\<rparr>"
  have g: "get_video_transcript svc v language w = (Inr r, w1)"
    using fetch_caught[OF c0] by (simp add: r_def w1_def)
  have "\<forall>d t. out = Some d \<and> d \<noteq> [] \<and> transcript r = Some t \<and> t \<noteq> []
             \<longrightarrow> write_file svc (length (fs_ops w1)) (path_join d (video_id r @ ''.txt'')) t = None"
  proof (intro allI impI)
    fix d t
    assume a: "out = Some d \<and> d \<noteq> [] \<and> transcript r = Some t \<and> t \<noteq> []"
    then obtain texts where
      "transcripts svc (length (fetches w)) v (asked language) = Segments texts"
      "t = full_transcript texts"
      using transcript_result_for[of v _ t] by (auto simp add: r_def)
    with a f0 show "write_file svc (length (fs_ops w1)) (path_join d (video_id r @ ''.txt'')) t = None"
      by (simp add: r_def)
  qed
  from save_succeeds[OF this] obtain w2 where sv: "save_transcript svc out r w1 = (None, w2)"
    by blast
  have f2: "fetches w2 = fetches w1" by (rule fetches_save[OF sv])
  define w3 where "w3 = (if vs \<noteq> [] then w2\<lparr>sleeps := Suc (sleeps w2)\<rparr> else w2)"
  have "batch_loop svc language out results (v # vs) w
        = batch_loop svc language out (results @ [r]) vs w3"
    by (simp add: g sv w3_def Let_def)
  moreover have "fetches w3 = fetches w @ [(v, asked language)]"
    by (simp add: w3_def f2 w1_def)
  ultimately show ?thesis unfolding r_def by blast
qed

lemma batch_loop_caught:
  assumes "\<forall>i<length ids. caught (transcripts svc (length (fetches w) + i) (ids ! i) (asked language))"
    and "\<forall>d n texts. \<forall>i<length ids. out = Some d \<and> d \<noteq> []
               \<and> transcripts svc (length (fetches w) + i) (ids ! i) (asked language) = Segments texts
               \<and> full_transcript texts \<noteq> []
               \<longrightarrow> write_file svc n (path_join d (ids ! i @ ''.txt'')) (full_transcript texts) = None"
  shows "\<exists>w'. batch_loop svc language out results ids w =
       (Inr (results @ map (\<lambda>i. result_for (ids ! i)
                (transcripts svc (length (fetches w) + i) (ids ! i) (asked language))) [0..<length ids]), w')
     \<and> fetches w' = fetches w @ map (\<lambda>v. (v, asked language)) ids"
  using assms
proof (induction ids arbitrary: results w)
  case Nil
  then show ?case by simp
next
  case (Cons v vs)
  from Cons.prems(1) have c0: "caught (transcripts svc (length (fetches w)) v (asked language))"
    by fastforce
  have f0: "\<forall>d n texts. out = Some d \<and> d \<noteq> []
               \<and> transcripts svc (length (fetches w)) v (asked language) = Segments texts
               \<and> full_transcript texts \<noteq> []
               \<longrightarrow> write_file svc n (path_join d (v @ ''.txt'')) (full_transcript texts) = None"
  proof (intro allI impI)
    fix d n texts
    assume "out = Some d \<and> d \<noteq> []
               \<and> transcripts svc (length (fetches w)) v (asked language) = Segments texts
               \<and> full_transcript texts \<noteq> []"
    then have "out = Some d \<and> d \<noteq> []
               \<and> transcripts svc (length (fetches w) + 0) ((v # vs) ! 0) (asked language) = Segments texts
               \<and> full_transcript texts \<noteq> []" by simp
    with Cons.prems(2) have "write_file svc n (path_join d ((v # vs) ! 0 @ ''.txt'')) (full_transcript texts) = None"
      by (metis length_greater_0_conv list.discI)
    then show "write_file svc n (path_join d (v @ ''.txt'')) (full_transcript texts) = None" by simp
  qed
  define r where "r = result_for v (transcripts svc (length (fetches w)) v (asked language))"
  from batch_step[OF c0 f0, of results vs] obtain w3 where
    step: "batch_loop svc language out results (v # vs) w = batch_loop svc language out (results @ [r]) vs w3"
    and f3: "fetches w3 = fetches w @ [(v, asked language)]"
    unfolding r_def by blast
  have c: "\<forall>i<length vs. caught (transcripts svc (length (fetches w3) + i) (vs ! i) (asked language))"
  proof (intro allI impI)
    fix i assume "i < length vs"
    then have "caught (transcripts svc (length (fetches w) + Suc i) ((v # vs) ! Suc i) (asked language))"
      using Cons.prems(1) by (metis length_Cons Suc_less_eq)
    then show "caught (transcripts svc (length (fetches w3) + i) (vs ! i) (asked language))"
      by (simp add: f3)
  qed
  have f: "\<forall>d n texts. \<forall>i<length vs. out = Some d \<and> d \<noteq> []
               \<and> transcripts svc (length (fetches w3) + i) (vs ! i) (asked language) = Segments texts
               \<and> full_transcript texts \<noteq> []
               \<longrightarrow> write_file svc n (path_join d (vs ! i @ ''.txt'')) (full_transcript texts) = None"
  proof (intro allI impI)
    fix d n texts i
    assume i: "i < length vs"
      and a: "out = Some d \<and> d \<noteq> []
               \<and> transcripts svc (length (fetches w3) + i) (vs ! i) (asked language) = Segments texts
               \<and> full_transcript texts \<noteq> []"
    from i have i': "Suc i < length (v # vs)" by simp
    from a have "out = Some d \<and> d \<noteq> []
               \<and> transcripts svc (length (fetches w) + Suc i) ((v # vs) ! Suc i) (asked language) = Segments texts
               \<and> full_transcript texts \<noteq> []" by (simp add: f3)
    with Cons.prems(2) i'
    have "write_file svc n (path_join d ((v # vs) ! Suc i @ ''.txt'')) (full_transcript texts) = None"
      by blast
    then show "write_file svc n (path_join d (vs ! i @ ''.txt'')) (full_transcript texts) = None"
      by simp
  qed
  from Cons.IH[OF c f, of "results @ [r]"] obtain w' where
    a: "batch_loop svc language out (results @ [r]) vs w3 =
       (Inr ((results @ [r]) @ map (\<lambda>i. result_for (vs ! i)
                (transcripts svc (length (fetches w3) + i) (vs ! i) (asked language))) [0..<length vs]), w')"
    and b: "fetches w' = fetches w3 @ map (\<lambda>v. (v, asked language)) vs"
    by blast
  have m: "map (\<lambda>i. result_for ((v # vs) ! i)
                (transcripts svc (length (fetches w) + i) ((v # vs) ! i) (asked language))) [0..<length (v # vs)]
        = r # map (\<lambda>i. result_for (vs ! i)
                (transcripts svc (length (fetches w3) + i) (vs ! i) (asked language))) [0..<length vs]"
  proof -
    have "[0..<length (v # vs)] = 0 # map Suc [0..<length vs]"
      by (simp add: upt_conv_Cons map_Suc_upt del: upt_Suc)
    then show ?thesis
      by (simp add: r_def f3 comp_def)
  qed
  show ?case
    apply (rule exI[of _ w'])
    using step a b m f3 by simp
qed

lemma batch_loop_uncaught:
  assumes "k < length ids"
    and "\<forall>i<k. caught (transcripts svc (length (fetches w) + i) (ids ! i) (asked language))"
    and "transcripts svc (length (fetches w) + k) (ids ! k) (asked language) = OtherFailure msg"
    and "\<forall>d n texts. \<forall>i<k. out = Some d \<and> d \<noteq> []
               \<and> transcripts svc (length (fetches w) + i) (ids ! i) (asked language) = Segments texts
               \<and> full_transcript texts \<noteq> []
               \<longrightarrow> write_file svc n (path_join d (ids ! i @ ''.txt'')) (full_transcript texts) = None"
  shows "\<exists>w'. batch_loop svc language out results ids w = (Inl (FetchFailure msg), w')
     \<and> fetches w' = fetches w @ map (\<lambda>v. (v, asked language)) (take (Suc k) ids)"
  using assms
proof (induction ids arbitrary: k results w)
  case Nil
  then show ?case by simp
next
  case (Cons v vs)
  show ?case
  proof (cases k)
    case 0
    with Cons.prems(3) have "transcripts svc (length (fetches w)) v (asked language) = OtherFailure msg"
      by simp
    from fetch_uncaught[OF this] show ?thesis
      by (simp add: 0)
  next
    case (Suc j)
    from Cons.prems(2) Suc have c0: "caught (transcripts svc (length (fetches w)) v (asked language))"
      by fastforce
    have f0: "\<forall>d n texts. out = Some d \<and> d \<noteq> []
               \<and> transcripts svc (length (fetches w)) v (asked language) = Segments texts
               \<and> full_transcript texts \<noteq> []
               \<longrightarrow> write_file svc n (path_join d (v @ ''.txt'')) (full_transcript texts) = None"
    proof (intro allI impI)
      fix d n texts
      assume "out = Some d \<and> d \<noteq> []
               \<and> transcripts svc (length (fetches w)) v (asked language) = Segments texts
               \<and> full_transcript texts \<noteq> []"
      then have "out = Some d \<and> d \<noteq> []
               \<and> transcripts svc (length (fetches w) + 0) ((v # vs) ! 0) (asked language) = Segments texts
               \<and> full_transcript texts \<noteq> []" by simp
      moreover have "0 < k" using Suc by simp
      ultimately have "write_file svc n (path_join d ((v # vs) ! 0 @ ''.txt'')) (full_transcript texts) = None"
        using Cons.prems(4) by blast
      then show "write_file svc n (path_join d (v @ ''.txt'')) (full_transcript texts) = None" by simp
    qed
    define r where "r = result_for v (transcripts svc (length (fetches w)) v (asked language))"
    from batch_step[OF c0 f0, of results vs] obtain w3 where
      step: "batch_loop svc language out results (v # vs) w = batch_loop svc language out (results @ [r]) vs w3"
      and f3: "fetches w3 = fetches w @ [(v, asked language)]"
      unfolding r_def by blast
    have j: "j < length vs" using Cons.prems(1) Suc by simp
    have pre: "\<forall>i<j. caught (transcripts svc (length (fetches w3) + i) (vs ! i) (asked language))"
    proof (intro allI impI)
      fix i assume "i < j"
      then have "Suc i < k" by (simp add: Suc)
      with Cons.prems(2)
      have "caught (transcripts svc (length (fetches w) + Suc i) ((v # vs) ! Suc i) (asked language))"
        by blast
      then show "caught (transcripts svc (length (fetches w3) + i) (vs ! i) (asked language))"
        by (simp add: f3)
    qed
    have bad: "transcripts svc (length (fetches w3) + j) (vs ! j) (asked language) = OtherFailure msg"
      using Cons.prems(3) by (simp add: Suc f3)
    have f: "\<forall>d n texts. \<forall>i<j. out = Some d \<and> d \<noteq> []
               \<and> transcripts svc (length (fetches w3) + i) (vs ! i) (asked language) = Segments texts
               \<and> full_transcript texts \<noteq> []
               \<longrightarrow> write_file svc n (path_join d (vs ! i @ ''.txt'')) (full_transcript texts) = None"
    proof (intro allI impI)
      fix d n texts i
      assume i: "i < j"
        and a: "out = Some d \<and> d \<noteq> []
               \<and> transcripts svc (length (fetches w3) + i) (vs ! i) (asked language) = Segments texts
               \<and> full_transcript texts \<noteq> []"
      from i have i': "Suc i < k" by (simp add: Suc)
      from a have "out = Some d \<and> d \<noteq> []
               \<and> transcripts svc (length (fetches w) + Suc i) ((v # vs) ! Suc i) (asked language) = Segments texts
               \<and> full_transcript texts \<noteq> []" by (simp add: f3)
      with Cons.prems(4) i'
      have "write_file svc n (path_join d ((v # vs) ! Suc i @ ''.txt'')) (full_transcript texts) = None"
        by blast
      then show "write_file svc n (path_join d (vs ! i @ ''.txt'')) (full_transcript texts) = None"
        by simp
    qed
    from Cons.IH[OF j pre bad f, of "results @ [r]"] obtain w' where
      "batch_loop svc language out (results @ [r]) vs w3 = (Inl (FetchFailure msg), w')"
      "fetches w' = fetches w3 @ map (\<lambda>v. (v, asked language)) (take (Suc j) vs)"
      by blast
    then show ?thesis
      using step f3 by (simp add: Suc)
  qed
qed

lemma batch_start:
  assumes "directory_ready svc output_dir w"
  shows "\<exists>w0. extract_transcripts_batch svc video_ids language output_dir w
               = batch_loop svc language output_dir [] video_ids w0
             \<and> fetches w0 = fetches w"
proof (cases output_dir)
  case None
  then have "extract_transcripts_batch svc video_ids language output_dir w
               = batch_loop svc language output_dir [] video_ids w"
    by (simp add: extract_transcripts_batch_def)
  then show ?thesis by blast
next
  case (Some d)
  show ?thesis
  proof (cases "d \<noteq> [] \<and> \<not> path_exists svc d")
    case True
    with assms Some have "makedirs svc (length (fs_ops w)) d = None" by blast
    then have "extract_transcripts_batch svc video_ids language output_dir w
               = batch_loop svc language output_dir [] video_ids (w\<lparr>fs_ops := fs_ops w @ [MakeDirs d]\<rparr>)"
      using Some True by (simp add: extract_transcripts_batch_def Let_def)
    then show ?thesis by (intro exI[of _ "w\<lparr>fs_ops := fs_ops w @ [MakeDirs d]\<rparr>"]) simp
  next
    case False
    then have "extract_transcripts_batch svc video_ids language output_dir w
               = batch_loop svc language output_dir [] video_ids w"
      using Some by (auto simp add: extract_transcripts_batch_def)
    then show ?thesis by blast
  qed
qed

text \<open>
  The file operations are part of the run: when the file of the first transcript cannot
  be written, the exception of line 194 leaves the batch and the second identifier is
  never fetched.
\<close>

lemma failed_write_aborts_batch:
  "extract_transcripts_batch read_only [''a'', ''b''] None (Some ''out'') fresh
     = (Inl (OSError ''Permission denied''),
        fresh\<lparr>fetches := [(''a'', None)],
              fs_ops := [MakeDirs ''out'', WriteFile ''out/a.txt'' ''hello world'']\<rparr>)"
  by (simp add: extract_transcripts_batch_def get_video_transcript_def read_only_def services_of_def
        two_segments_def fresh_def asked_def save_transcript_def path_join_def full_transcript_def
        strip_def is_space_def Let_def)

text \<open>
  C1, for the failures that are caught. When no fetch of the batch raises an exception
  other than the two that \<open>get_video_transcript\<close> catches, and no file operation of the
  run fails (none is made without \<open>output_dir\<close>), \<open>extract_transcripts_batch\<close> returns
  one result per identifier, in the order of the input: the \<open>i\<close>-th result carries the
  \<open>i\<close>-th identifier.
\<close>

theorem batch_results_follow_input:
  assumes "\<forall>i<length video_ids. caught (item_outcome svc w language video_ids i)"
    and "directory_ready svc output_dir w"
    and "writes_succeed svc output_dir w language video_ids (length video_ids)"
  shows "\<exists>results w'.
     extract_transcripts_batch svc video_ids language output_dir w = (Inr results, w')
     \<and> length results = length video_ids
     \<and> (\<forall>i<length video_ids. video_id (results ! i) = video_ids ! i)"
proof -
  from batch_start[OF assms(2), where video_ids = video_ids and language = language] obtain w0 where
    run: "extract_transcripts_batch svc video_ids language output_dir w
            = batch_loop svc language output_dir [] video_ids w0"
    and f0: "fetches w0 = fetches w"
    by blast
  from assms(1) have c: "\<forall>i<length video_ids.
      caught (transcripts svc (length (fetches w0) + i) (video_ids ! i) (asked language))"
    by (simp add: item_outcome_def f0)
  from assms(3) have f: "\<forall>d n texts. \<forall>i<length video_ids. output_dir = Some d \<and> d \<noteq> []
      \<and> transcripts svc (length (fetches w0) + i) (video_ids ! i) (asked language) = Segments texts
      \<and> full_transcript texts \<noteq> []
      \<longrightarrow> write_file svc n (path_join d (video_ids ! i @ ''.txt'')) (full_transcript texts) = None"
    by (simp add: item_outcome_def f0)
  from batch_loop_caught[OF c f, of "[]"] obtain w' where
    "batch_loop svc language output_dir [] video_ids w0 =
       (Inr ([] @ map (\<lambda>i. result_for (video_ids ! i)
                (transcripts svc (length (fetches w0) + i) (video_ids ! i) (asked language)))
                [0..<length video_ids]), w')"
    by blast
  then show ?thesis
    by (simp add: run)
qed

theorem batch_results_follow_input_witness:
  "caught (item_outcome one_disabled fresh None [''a'', ''b'', ''c''] 0)
   \<and> caught (item_outcome one_disabled fresh None [''a'', ''b'', ''c''] 1)
   \<and> caught (item_outcome one_disabled fresh None [''a'', ''b'', ''c''] 2)
   \<and> makedirs one_disabled (length (fs_ops fresh)) ''out'' = None
   \<and> (\<exists>results w'.
     extract_transcripts_batch one_disabled [''a'', ''b'', ''c''] None (Some ''out'') fresh
       = (Inr results, w')
     \<and> length results = 3
     \<and> video_id (results ! 0) = ''a''
     \<and> video_id (results ! 1) = ''b''
     \<and> video_id (results ! 2) = ''c'')"
proof -
  have c: "caught (item_outcome one_disabled fresh None [''a'', ''b'', ''c''] 0)"
    "caught (item_outcome one_disabled fresh None [''a'', ''b'', ''c''] 1)"
    "caught (item_outcome one_disabled fresh None [''a'', ''b'', ''c''] 2)"
    by (simp_all add: item_outcome_def one_disabled_def services_of_def scripted_def caught_def
          fresh_def asked_def)
  have h: "\<forall>i<length [''a'', ''b'', ''c''].
      caught (item_outcome one_disabled fresh None [''a'', ''b'', ''c''] i)"
  proof (intro allI impI)
    fix i :: nat assume "i < length [''a'', ''b'', ''c'']"
    then have "i = 0 \<or> i = 1 \<or> i = 2" by auto
    with c show "caught (item_outcome one_disabled fresh None [''a'', ''b'', ''c''] i)"
      by auto
  qed
  have m: "makedirs one_disabled (length (fs_ops fresh)) ''out'' = None"
    by (simp add: one_disabled_def services_of_def)
  have d: "directory_ready one_disabled (Some ''out'') fresh"
    by (simp add: one_disabled_def services_of_def)
  have f: "writes_succeed one_disabled (Some ''out'') fresh None [''a'', ''b'', ''c'']
             (length [''a'', ''b'', ''c''])"
    by (simp add: one_disabled_def services_of_def)
  from batch_results_follow_input[OF h d f] obtain results w' where
    r: "extract_transcripts_batch one_disabled [''a'', ''b'', ''c''] None (Some ''out'') fresh
       = (Inr results, w')"
    "length results = length [''a'', ''b'', ''c'']"
    "\<forall>i<length [''a'', ''b'', ''c'']. video_id (results ! i) = [''a'', ''b'', ''c''] ! i"
    by blast
  from r(3) have "video_id (results ! 0) = ''a''" "video_id (results ! 1) = ''b''"
    "video_id (results ! 2) = ''c''"
    by fastforce+
  with r(1,2) c m show ?thesis by auto
qed

text \<open>
  C1 as stated, for any combination of fetch outcomes, fails: when the second of three
  fetches raises another exception, the method raises it and returns no list.
\<close>

theorem unexpected_failure_aborts_batch:
  "fst (extract_transcripts_batch
          one_reset [''a'', ''b'', ''c''] None None fresh)
     = Inl (FetchFailure ''connection reset'')"
  by (simp add: extract_transcripts_batch_def get_video_transcript_def one_reset_def services_of_def
        scripted_def fresh_def asked_def save_transcript_def Let_def)

text \<open>
  C2, with the failures that are not caught set apart. A fetch that fails with
  transcripts-disabled or no-transcript-found does not abort the batch: its item becomes
  a result without transcript and with the message in \<open>error\<close>. When no fetch fails in
  another way and no file operation of the run fails, every identifier is fetched and
  the result of every item is returned as its own fetch gave it: the results collected
  for the items before and after a failed one are intact, each with its transcript. A
  fetch that fails in any other way is not caught: at the first such item \<open>k\<close> the batch
  raises that exception, the identifiers after \<open>k\<close> are not fetched, and no results are
  returned.
\<close>

theorem only_caught_failures_are_contained:
  "((\<forall>i<length video_ids. caught (item_outcome svc w language video_ids i))
    \<and> directory_ready svc output_dir w
    \<and> writes_succeed svc output_dir w language video_ids (length video_ids) \<longrightarrow>
      (\<exists>results w'.
         extract_transcripts_batch svc video_ids language output_dir w = (Inr results, w')
         \<and> length results = length video_ids
         \<and> fetches w' = fetches w @ map (\<lambda>v. (v, asked language)) video_ids
         \<and> (\<forall>i<length video_ids. \<forall>texts.
              item_outcome svc w language video_ids i = Segments texts \<longrightarrow>
              results ! i = \<lparr>video_id = video_ids ! i,
                             transcript = Some (full_transcript texts), error = None\<rparr>)
         \<and> (\<forall>i<length video_ids. \<forall>msg.
              item_outcome svc w language video_ids i = TranscriptsDisabled msg
              \<or> item_outcome svc w language video_ids i = NoTranscriptFound msg \<longrightarrow>
              results ! i = \<lparr>video_id = video_ids ! i, transcript = None, error = Some msg\<rparr>)))
   \<and> (\<forall>k msg.
        k < length video_ids
        \<and> (\<forall>i<k. caught (item_outcome svc w language video_ids i))
        \<and> item_outcome svc w language video_ids k = OtherFailure msg
        \<and> directory_ready svc output_dir w
        \<and> writes_succeed svc output_dir w language video_ids k \<longrightarrow>
        (\<exists>w'. extract_transcripts_batch svc video_ids language output_dir w
                 = (Inl (FetchFailure msg), w')
             \<and> fetches w' = fetches w @ map (\<lambda>v. (v, asked language)) (take (Suc k) video_ids)))"
  (is "(?P1 \<longrightarrow> ?Q1) \<and> (\<forall>k msg. ?P2 k msg \<longrightarrow> ?Q2 k msg)")
proof (intro conjI allI impI)
  assume p: ?P1
  from p have a: "\<forall>i<length video_ids. caught (item_outcome svc w language video_ids i)"
    by (rule conjunct1)
  from p have dr: "directory_ready svc output_dir w"
    by (rule conjunct1[OF conjunct2])
  from p have ws: "writes_succeed svc output_dir w language video_ids (length video_ids)"
    by (rule conjunct2[OF conjunct2])
  from batch_start[OF dr, where video_ids = video_ids and language = language] obtain w0 where
    run: "extract_transcripts_batch svc video_ids language output_dir w
            = batch_loop svc language output_dir [] video_ids w0"
    and f0: "fetches w0 = fetches w"
    by (elim exE conjE)
  have io: "\<And>i. item_outcome svc w language video_ids i
             = transcripts svc (length (fetches w0) + i) (video_ids ! i) (asked language)"
    by (simp add: item_outcome_def f0)
  have c: "\<forall>i<length video_ids.
      caught (transcripts svc (length (fetches w0) + i) (video_ids ! i) (asked language))"
    using a unfolding io .
  have f: "\<forall>d n texts. \<forall>i<length video_ids. output_dir = Some d \<and> d \<noteq> []
      \<and> transcripts svc (length (fetches w0) + i) (video_ids ! i) (asked language) = Segments texts
      \<and> full_transcript texts \<noteq> []
      \<longrightarrow> write_file svc n (path_join d (video_ids ! i @ ''.txt'')) (full_transcript texts) = None"
    using ws unfolding io .
  from batch_loop_caught[OF c f, of "[]"] obtain w' where
    r: "batch_loop svc language output_dir [] video_ids w0 =
       (Inr ([] @ map (\<lambda>i. result_for (video_ids ! i)
                (transcripts svc (length (fetches w0) + i) (video_ids ! i) (asked language)))
                [0..<length video_ids]), w')"
    and fw: "fetches w' = fetches w0 @ map (\<lambda>v. (v, asked language)) video_ids"
    by (elim exE conjE)
  define rs where "rs = map (\<lambda>i. result_for (video_ids ! i)
                (transcripts svc (length (fetches w0) + i) (video_ids ! i) (asked language)))
                [0..<length video_ids]"
  have e: "extract_transcripts_batch svc video_ids language output_dir w = (Inr rs, w')"
    using r by (simp add: run rs_def)
  have l: "length rs = length video_ids"
    by (simp add: rs_def)
  have g: "fetches w' = fetches w @ map (\<lambda>v. (v, asked language)) video_ids"
    using fw by (simp add: f0)
  have nth: "rs ! i = result_for (video_ids ! i) (item_outcome svc w language video_ids i)"
    if "i < length video_ids" for i
    using that by (simp add: rs_def io)
  have s: "\<forall>i<length video_ids. \<forall>texts.
            item_outcome svc w language video_ids i = Segments texts \<longrightarrow>
            rs ! i = \<lparr>video_id = video_ids ! i,
                      transcript = Some (full_transcript texts), error = None\<rparr>"
  proof (intro allI impI)
    fix i texts
    assume "i < length video_ids" "item_outcome svc w language video_ids i = Segments texts"
    then show "rs ! i = \<lparr>video_id = video_ids ! i,
                      transcript = Some (full_transcript texts), error = None\<rparr>"
      using nth[of i] by (simp add: result_for_def)
  qed
  have d: "\<forall>i<length video_ids. \<forall>msg.
            item_outcome svc w language video_ids i = TranscriptsDisabled msg
            \<or> item_outcome svc w language video_ids i = NoTranscriptFound msg \<longrightarrow>
            rs ! i = \<lparr>video_id = video_ids ! i, transcript = None, error = Some msg\<rparr>"
  proof (intro allI impI)
    fix i msg
    assume "i < length video_ids"
      "item_outcome svc w language video_ids i = TranscriptsDisabled msg
       \<or> item_outcome svc w language video_ids i = NoTranscriptFound msg"
    then show "rs ! i = \<lparr>video_id = video_ids ! i, transcript = None, error = Some msg\<rparr>"
      using nth[of i] result_for_error[of "item_outcome svc w language video_ids i" msg "video_ids ! i"]
      by simp
  qed
  show ?Q1
    by (rule exI[of _ rs], rule exI[of _ w'], intro conjI) (rule e l g s d)+
next
  fix k msg
  assume p: "?P2 k msg"
  from p have b1: "k < length video_ids"
    by (rule conjunct1)
  from p have b2: "\<forall>i<k. caught (item_outcome svc w language video_ids i)"
    by (rule conjunct1[OF conjunct2])
  from p have b3: "item_outcome svc w language video_ids k = OtherFailure msg"
    by (rule conjunct1[OF conjunct2[OF conjunct2]])
  from p have dr: "directory_ready svc output_dir w"
    by (rule conjunct1[OF conjunct2[OF conjunct2[OF conjunct2]]])
  from p have ws: "writes_succeed svc output_dir w language video_ids k"
    by (rule conjunct2[OF conjunct2[OF conjunct2[OF conjunct2]]])
  from batch_start[OF dr, where video_ids = video_ids and language = language] obtain w0 where
    run: "extract_transcripts_batch svc video_ids language output_dir w
            = batch_loop svc language output_dir [] video_ids w0"
    and f0: "fetches w0 = fetches w"
    by (elim exE conjE)
  have io: "\<And>i. item_outcome svc w language video_ids i
             = transcripts svc (length (fetches w0) + i) (video_ids ! i) (asked language)"
    by (simp add: item_outcome_def f0)
  have 2: "\<forall>i<k. caught (transcripts svc (length (fetches w0) + i) (video_ids ! i) (asked language))"
    using b2 unfolding io .
  have 3: "transcripts svc (length (fetches w0) + k) (video_ids ! k) (asked language) = OtherFailure msg"
    using b3 unfolding io .
  have 4: "\<forall>d n texts. \<forall>i<k. output_dir = Some d \<and> d \<noteq> []
      \<and> transcripts svc (length (fetches w0) + i) (video_ids ! i) (asked language) = Segments texts
      \<and> full_transcript texts \<noteq> []
      \<longrightarrow> write_file svc n (path_join d (video_ids ! i @ ''.txt'')) (full_transcript texts) = None"
    using ws unfolding io .
  from batch_loop_uncaught[OF b1 2 3 4, of "[]"] show "?Q2 k msg"
    by (simp add: run f0)
qed

theorem only_caught_failures_are_contained_witness:
  "item_outcome one_disabled fresh None [''a'', ''b'', ''c''] 0 = Segments [''x'']
   \<and> item_outcome one_disabled fresh None [''a'', ''b'', ''c''] 1 = TranscriptsDisabled ''off''
   \<and> item_outcome one_disabled fresh None [''a'', ''b'', ''c''] 2 = Segments [''y'']
   \<and> makedirs one_disabled (length (fs_ops fresh)) ''out'' = None
   \<and> (\<exists>results w'.
         extract_transcripts_batch one_disabled [''a'', ''b'', ''c''] None (Some ''out'') fresh
           = (Inr results, w')
         \<and> length results = 3
         \<and> fetches w' = [(''a'', None), (''b'', None), (''c'', None)]
         \<and> results ! 0 = \<lparr>video_id = ''a'', transcript = Some ''x'', error = None\<rparr>
         \<and> results ! 1 = \<lparr>video_id = ''b'', transcript = None, error = Some ''off''\<rparr>
         \<and> results ! 2 = \<lparr>video_id = ''c'', transcript = Some ''y'', error = None\<rparr>)
   \<and> item_outcome one_reset fresh None [''a'', ''b'', ''c''] 0 = Segments [''x'']
   \<and> item_outcome one_reset fresh None [''a'', ''b'', ''c''] 1 = OtherFailure ''connection reset''
   \<and> makedirs one_reset (length (fs_ops fresh)) ''out'' = None
   \<and> (\<exists>w'. extract_transcripts_batch one_reset [''a'', ''b'', ''c''] None (Some ''out'') fresh
                 = (Inl (FetchFailure ''connection reset''), w')
             \<and> fetches w' = [(''a'', None), (''b'', None)])"
proof -
  let ?ids = "[''a'', ''b'', ''c'']"
  have o0: "item_outcome one_disabled fresh None ?ids 0 = Segments [''x'']"
    and o1: "item_outcome one_disabled fresh None ?ids 1 = TranscriptsDisabled ''off''"
    and o2: "item_outcome one_disabled fresh None ?ids 2 = Segments [''y'']"
    by (simp_all add: item_outcome_def one_disabled_def services_of_def scripted_def fresh_def asked_def)
  have h1: "\<forall>i<length ?ids. caught (item_outcome one_disabled fresh None ?ids i)"
  proof (intro allI impI)
    fix i :: nat assume "i < length ?ids"
    then have "i = 0 \<or> i = 1 \<or> i = 2" by auto
    then show "caught (item_outcome one_disabled fresh None ?ids i)"
      using o0 o1 o2 by (auto simp add: caught_def)
  qed
  have m1: "makedirs one_disabled (length (fs_ops fresh)) ''out'' = None"
    by (simp add: one_disabled_def services_of_def)
  have d1: "directory_ready one_disabled (Some ''out'') fresh"
    by (simp add: one_disabled_def services_of_def)
  have w1: "writes_succeed one_disabled (Some ''out'') fresh None ?ids (length ?ids)"
    by (simp add: one_disabled_def services_of_def)
  have p0: "item_outcome one_reset fresh None ?ids 0 = Segments [''x'']"
    and p1: "item_outcome one_reset fresh None ?ids 1 = OtherFailure ''connection reset''"
    by (simp_all add: item_outcome_def one_reset_def services_of_def scripted_def fresh_def asked_def)
  have h2: "\<forall>i<1. caught (item_outcome one_reset fresh None ?ids i)"
    using p0 by (simp add: caught_def)
  have m2: "makedirs one_reset (length (fs_ops fresh)) ''out'' = None"
    by (simp add: one_reset_def services_of_def)
  have d2: "directory_ready one_reset (Some ''out'') fresh"
    by (simp add: one_reset_def services_of_def)
  have w2: "writes_succeed one_reset (Some ''out'') fresh None ?ids 1"
    by (simp add: one_reset_def services_of_def)
  have k2: "(1::nat) < length ?ids" by simp
  have x: "full_transcript [''x''] = ''x''" and y: "full_transcript [''y''] = ''y''"
    by (simp_all add: full_transcript_def strip_def is_space_def)
  note t1 = only_caught_failures_are_contained
            [where video_ids = ?ids and svc = one_disabled and w = fresh and language = None
               and output_dir = "Some ''out''"]
  from t1 h1 d1 w1 obtain results w' where
    a: "extract_transcripts_batch one_disabled ?ids None (Some ''out'') fresh = (Inr results, w')"
    and b: "length results = length ?ids"
    and c: "fetches w' = fetches fresh @ map (\<lambda>v. (v, asked None)) ?ids"
    and s: "\<forall>i<length ?ids. \<forall>texts.
              item_outcome one_disabled fresh None ?ids i = Segments texts \<longrightarrow>
              results ! i = \<lparr>video_id = ?ids ! i,
                             transcript = Some (full_transcript texts), error = None\<rparr>"
    and d: "\<forall>i<length ?ids. \<forall>msg.
              item_outcome one_disabled fresh None ?ids i = TranscriptsDisabled msg
              \<or> item_outcome one_disabled fresh None ?ids i = NoTranscriptFound msg \<longrightarrow>
              results ! i = \<lparr>video_id = ?ids ! i, transcript = None, error = Some msg\<rparr>"
    by blast
  from s o0 have r0: "results ! 0 = \<lparr>video_id = ''a'', transcript = Some ''x'', error = None\<rparr>"
    using x by fastforce
  from d o1 have r1: "results ! 1 = \<lparr>video_id = ''b'', transcript = None, error = Some ''off''\<rparr>"
    by fastforce
  from s o2 have r2: "results ! 2 = \<lparr>video_id = ''c'', transcript = Some ''y'', error = None\<rparr>"
    using y by fastforce
  have c1: "\<exists>results w'.
         extract_transcripts_batch one_disabled ?ids None (Some ''out'') fresh = (Inr results, w')
         \<and> length results = 3
         \<and> fetches w' = [(''a'', None), (''b'', None), (''c'', None)]
         \<and> results ! 0 = \<lparr>video_id = ''a'', transcript = Some ''x'', error = None\<rparr>
         \<and> results ! 1 = \<lparr>video_id = ''b'', transcript = None, error = Some ''off''\<rparr>
         \<and> results ! 2 = \<lparr>video_id = ''c'', transcript = Some ''y'', error = None\<rparr>"
    using a b c r0 r1 r2 by (simp add: fresh_def asked_def)
  note t2 = only_caught_failures_are_contained
            [where video_ids = ?ids and svc = one_reset and w = fresh and language = None
               and output_dir = "Some ''out''"]
  from t2 k2 h2 p1 d2 w2 obtain w'' where
    "extract_transcripts_batch one_reset ?ids None (Some ''out'') fresh
       = (Inl (FetchFailure ''connection reset''), w'')"
    "fetches w'' = fetches fresh @ map (\<lambda>v. (v, asked None)) (take (Suc 1) ?ids)"
    by blast
  then have c2: "\<exists>w'. extract_transcripts_batch one_reset ?ids None (Some ''out'') fresh
                 = (Inl (FetchFailure ''connection reset''), w')
             \<and> fetches w' = [(''a'', None), (''b'', None)]"
    by (simp add: fresh_def asked_def)
  from o0 o1 o2 m1 c1 p0 p1 m2 c2 show ?thesis by blast
qed

text \<open>
  C2 as stated, for failures other than the two caught ones, fails: the second of three
  fetches raises, the method raises with it, the third identifier is never fetched and
  the result collected for the first is not returned.
\<close>

theorem unexpected_failure_loses_collected_results:
  "extract_transcripts_batch one_reset [''v1'', ''v2'', ''v3''] None None fresh
     = (Inl (FetchFailure ''connection reset''),
        fresh\<lparr>fetches := [(''v1'', None), (''v2'', None)], sleeps := 1\<rparr>)"
  by (simp add: extract_transcripts_batch_def get_video_transcript_def one_reset_def
        services_of_def scripted_def fresh_def asked_def save_transcript_def Let_def)

section \<open>Properties of the pagination loop\<close>

lemma executed_after:
  "executed r (after_requests w rs) = after_requests w (rs @ [r])"
  by (simp add: executed_def after_requests_def)

lemma requests_after [simp]: "requests (after_requests w rs) = requests w @ rs"
  by (simp add: after_requests_def)

lemma collected_Suc:
  "j < length pages \<Longrightarrow> collected pages (Suc j) = collected pages j + length (fst (pages ! j))"
  by (simp add: collected_def take_Suc_conv_app_nth)

lemma playlist_loop_until_error:
  assumes ok: "\<forall>j<length pages.
            playlist_items svc (length (requests w) + j) pid
              (min (max_results - int (collected pages j)) 50) (cursor_after pages j)
              = Page (fst (pages ! j)) (Some (snd (pages ! j)))
            \<and> snd (pages ! j) \<noteq> []
            \<and> int (collected pages (Suc j)) < max_results"
    and err: "playlist_items svc (length (requests w) + length pages) pid
              (min (max_results - int (collected pages (length pages))) 50)
              (cursor_after pages (length pages)) = PageError e"
    and j: "j \<le> length pages"
  shows "playlist_loop svc pid max_results (concat (map fst (take j pages))) (cursor_after pages j)
           (after_requests w (map (page_request pid max_results pages) [0..<j]))
         = Some (concat (map fst pages),
                 after_requests w (map (page_request pid max_results pages) [0..<Suc (length pages)]))"
  using j
proof (induction "length pages - j" arbitrary: j)
  case 0
  then have j: "j = length pages" by simp
  show ?case
    apply (subst playlist_loop.simps)
    using err
    by (simp add: j executed_after collected_def page_request_def Let_def)
next
  case (Suc n)
  then have j: "j < length pages" by simp
  from ok j have
    p: "playlist_items svc (length (requests w) + j) pid
              (min (max_results - int (collected pages j)) 50) (cursor_after pages j)
              = Page (fst (pages ! j)) (Some (snd (pages ! j)))"
    and t: "snd (pages ! j) \<noteq> []"
    and c: "int (collected pages (Suc j)) < max_results"
    by blast+
  have n: "n = length pages - Suc j" using Suc.hyps(2) by simp
  have le: "Suc j \<le> length pages" using j by simp
  have cur: "cursor_after pages (Suc j) = Some (snd (pages ! j))"
    by (simp add: cursor_after_def)
  have ids: "concat (map fst (take (Suc j) pages)) = concat (map fst (take j pages)) @ fst (pages ! j)"
    using j by (simp add: take_Suc_conv_app_nth)
  have c': "\<not> max_results \<le> int (length (concat (map fst (take j pages)) @ fst (pages ! j)))"
    using c collected_Suc[OF j] by (simp add: collected_def)
  have step: "playlist_loop svc pid max_results (concat (map fst (take j pages))) (cursor_after pages j)
           (after_requests w (map (page_request pid max_results pages) [0..<j]))
        = playlist_loop svc pid max_results (concat (map fst (take (Suc j) pages)))
           (cursor_after pages (Suc j))
           (after_requests w (map (page_request pid max_results pages) [0..<Suc j]))"
    apply (subst playlist_loop.simps)
    using p t c'
    by (simp add: executed_after collected_def page_request_def Let_def cur ids)
  show ?case
    using Suc.hyps(1)[OF n le] step by simp
qed

text \<open>
  C9. Whenever a page request of \<open>get_playlist_video_ids\<close> fails with an HTTP error,
  the method returns (it neither raises nor runs on) the identifiers of all pages
  fetched before the failure, in order, and the failed request is the last one it makes.
  Here \<open>pages\<close> are the pages delivered before the failure: each came with a non-empty
  cursor and left the count below \<open>max_results\<close>, which is how the loop got to the
  next request.
\<close>

theorem http_error_keeps_collected_pages:
  assumes "truthy (api_key self)"
    and "\<forall>j<length pages.
            playlist_items svc (length (requests w) + j) playlist_id
              (min (max_results - int (collected pages j)) 50) (cursor_after pages j)
              = Page (fst (pages ! j)) (Some (snd (pages ! j)))
            \<and> snd (pages ! j) \<noteq> []
            \<and> int (collected pages (Suc j)) < max_results"
    and "playlist_items svc (length (requests w) + length pages) playlist_id
              (min (max_results - int (collected pages (length pages))) 50)
              (cursor_after pages (length pages)) = PageError e"
  shows "get_playlist_video_ids svc self playlist_id max_results w
         = Some (Inr (concat (map fst pages)),
                 after_requests w
                   (map (page_request playlist_id max_results pages) [0..<Suc (length pages)]))"
proof -
  have "playlist_loop svc playlist_id max_results [] None w
        = Some (concat (map fst pages),
                after_requests w
                  (map (page_request playlist_id max_results pages) [0..<Suc (length pages)]))"
    using playlist_loop_until_error[OF assms(2) assms(3), of 0]
    by (simp add: cursor_after_def after_requests_def)
  then show ?thesis
    using assms(1) by (simp add: get_playlist_video_ids_def)
qed

theorem http_error_keeps_collected_pages_witness:
  "truthy (api_key \<lparr>api_key = Some ''k''\<rparr>)
   \<and> playlist_items (services_of two_segments (then_error two_pages ''503'')) 0 ''PL'' 50 None
       = Page [''a'', ''b''] (Some ''t1'')
   \<and> playlist_items (services_of two_segments (then_error two_pages ''503'')) 1 ''PL'' 48 (Some ''t1'')
       = Page [''c''] (Some ''t2'')
   \<and> playlist_items (services_of two_segments (then_error two_pages ''503'')) 2 ''PL'' 47 (Some ''t2'')
       = PageError ''503''
   \<and> get_playlist_video_ids (services_of two_segments (then_error two_pages ''503''))
        \<lparr>api_key = Some ''k''\<rparr> ''PL'' 50 fresh
      = Some (Inr [''a'', ''b'', ''c''],
              fresh\<lparr>requests := [PlaylistItemsList ''PL'' 50 None,
                                 PlaylistItemsList ''PL'' 48 (Some ''t1''),
                                 PlaylistItemsList ''PL'' 47 (Some ''t2'')]\<rparr>)"
proof -
  let ?svc = "services_of two_segments (then_error two_pages ''503'')"
  have len: "length two_pages = 2" by (simp add: two_pages_def)
  have r0: "requests fresh = []" by (simp add: fresh_def)
  have pl: "playlist_items ?svc = then_error two_pages ''503''" by (simp add: services_of_def)
  have k: "truthy (api_key \<lparr>api_key = Some ''k''\<rparr>)" by simp
  have h: "\<forall>j<length two_pages.
            playlist_items ?svc (length (requests fresh) + j) ''PL''
              (min (50 - int (collected two_pages j)) 50) (cursor_after two_pages j)
              = Page (fst (two_pages ! j)) (Some (snd (two_pages ! j)))
            \<and> snd (two_pages ! j) \<noteq> []
            \<and> int (collected two_pages (Suc j)) < 50"
  proof (intro allI impI)
    fix j assume "j < length two_pages"
    then have "j = 0 \<or> j = 1" using len by auto
    then show "playlist_items ?svc (length (requests fresh) + j) ''PL''
              (min (50 - int (collected two_pages j)) 50) (cursor_after two_pages j)
              = Page (fst (two_pages ! j)) (Some (snd (two_pages ! j)))
            \<and> snd (two_pages ! j) \<noteq> []
            \<and> int (collected two_pages (Suc j)) < 50"
      by (auto simp add: services_of_def r0 then_error_def two_pages_def collected_def cursor_after_def)
  qed
  have e: "playlist_items ?svc (length (requests fresh) + length two_pages) ''PL''
              (min (50 - int (collected two_pages (length two_pages))) 50)
              (cursor_after two_pages (length two_pages)) = PageError ''503''"
    by (simp add: services_of_def then_error_def len)
  have run: "get_playlist_video_ids ?svc \<lparr>api_key = Some ''k''\<rparr> ''PL'' 50 fresh
      = Some (Inr [''a'', ''b'', ''c''],
              fresh\<lparr>requests := [PlaylistItemsList ''PL'' 50 None,
                                 PlaylistItemsList ''PL'' 48 (Some ''t1''),
                                 PlaylistItemsList ''PL'' 47 (Some ''t2'')]\<rparr>)"
    using http_error_keeps_collected_pages[OF k h e]
    by (simp add: two_pages_def after_requests_def page_request_def collected_def
        cursor_after_def fresh_def upt_conv_Cons)
  have p0: "playlist_items ?svc 0 ''PL'' 50 None = Page [''a'', ''b''] (Some ''t1'')"
    by (simp add: services_of_def then_error_def two_pages_def)
  have p1: "playlist_items ?svc 1 ''PL'' 48 (Some ''t1'') = Page [''c''] (Some ''t2'')"
    by (simp add: services_of_def then_error_def two_pages_def)
  have p2: "playlist_items ?svc 2 ''PL'' 47 (Some ''t2'') = PageError ''503''"
    by (simp add: services_of_def then_error_def two_pages_def)
  show ?thesis using k p0 p1 p2 run by blast
qed

subsection \<open>Paging through a collection\<close>

lemma page_count_last:
  assumes "0 < max_results" "50 * j < nat max_results" "j = 0 \<or> 50 * j < n"
    and "\<not> 50 * j + nat (min (max_results - int (50 * j)) 50) < n
         \<or> nat max_results \<le> 50 * j + nat (min (max_results - int (50 * j)) 50)"
  shows "page_count max_results n = Suc j"
proof (cases "n = 0")
  case True
  then show ?thesis using assms by (auto simp add: page_count_def)
next
  case False
  have lo: "50 * j < min (nat max_results) n" using assms False by auto
  have hi: "min (nat max_results) n \<le> 50 * j + 50" using assms by (auto simp add: min_def split: if_splits)
  from lo hi have "(min (nat max_results) n + 49) div 50 = Suc j" by arith
  then show ?thesis using False by (simp add: page_count_def)
qed

lemma loop_step:
  assumes "playlist_items svc (length (requests w)) pid (min (max_results - int (length ids)) 50) tok
           = Page items token"
  shows "playlist_loop svc pid max_results ids tok w
         = (if \<not> truthy token \<or> max_results \<le> int (length (ids @ items))
            then Some (ids @ items,
                       executed (PlaylistItemsList pid (min (max_results - int (length ids)) 50) tok) w)
            else playlist_loop svc pid max_results (ids @ items) token
                   (executed (PlaylistItemsList pid (min (max_results - int (length ids)) 50) tok) w))"
  apply (subst playlist_loop.simps)
  using assms by (simp add: Let_def)

lemma playlist_loop_honest:
  assumes pos: "0 < max_results"
    and honest: "\<forall>n page_size k. 0 < page_size \<and> page_size \<le> 50 \<and> k \<le> length coll \<longrightarrow>
            playlist_items svc n pid page_size (cursor_at cur k) = honest_page coll cur page_size k"
    and cur: "\<forall>k. 0 < k \<longrightarrow> cur k \<noteq> []"
    and j1: "50 * j < nat max_results"
    and j2: "j = 0 \<or> 50 * j < length coll"
  shows "playlist_loop svc pid max_results (take (50 * j) coll) (cursor_at cur (50 * j))
           (after_requests w (map (full_request pid max_results cur) [0..<j]))
         = Some (take (nat max_results) coll,
                 after_requests w (map (full_request pid max_results cur)
                   [0..<page_count max_results (length coll)]))"
  using j1 j2
proof (induction "nat max_results - 50 * j" arbitrary: j rule: less_induct)
  case less
  define k where "k = 50 * j"
  define s where "s = min (max_results - int k) 50"
  define ids where "ids = take k coll"
  define W where "W = after_requests w (map (full_request pid max_results cur) [0..<j])"
  define W' where "W' = after_requests w (map (full_request pid max_results cur) [0..<Suc j])"
  define T where "T = (if k + nat s < length coll then Some (cur (k + nat s)) else None)"
  have k1: "k < nat max_results" using less.prems by (simp add: k_def)
  have k2: "k \<le> length coll" using less.prems by (auto simp add: k_def)
  have s0: "0 < s" using k1 by (simp add: s_def)
  have s50: "s \<le> 50" by (simp add: s_def)
  have smax: "k + nat s \<le> nat max_results" using k1 by (simp add: s_def)
  have lk: "length ids = k" using k2 by (simp add: ids_def)
  have lw: "length (requests W) = length (requests w) + j" by (simp add: W_def)
  have "playlist_items svc (length (requests W)) pid s (cursor_at cur k) = honest_page coll cur s k"
    using honest s0 s50 k2 by blast
  then have page: "playlist_items svc (length (requests W)) pid
                     (min (max_results - int (length ids)) 50) (cursor_at cur k)
                   = Page (take (nat s) (drop k coll)) T"
    by (simp add: lk s_def honest_page_def T_def)
  have ids': "ids @ take (nat s) (drop k coll) = take (k + nat s) coll"
    by (simp add: ids_def take_add)
  have ex: "executed (PlaylistItemsList pid (min (max_results - int (length ids)) 50) (cursor_at cur k)) W
            = W'"
    by (simp add: W_def W'_def executed_after full_request_def lk k_def)
  have tr: "truthy T \<longleftrightarrow> k + nat s < length coll"
    using cur s0 by (simp add: T_def)
  have ln: "length (take (k + nat s) coll) = min (length coll) (k + nat s)" by simp
  have cond: "(\<not> truthy T \<or> max_results \<le> int (length (take (k + nat s) coll)))
              \<longleftrightarrow> (\<not> k + nat s < length coll \<or> nat max_results \<le> k + nat s)"
    unfolding tr ln using pos by (auto simp add: min_def)
  have unfold: "playlist_loop svc pid max_results ids (cursor_at cur k) W
        = (if \<not> k + nat s < length coll \<or> nat max_results \<le> k + nat s
           then Some (take (k + nat s) coll, W')
           else playlist_loop svc pid max_results (take (k + nat s) coll) T W')"
    unfolding loop_step[OF page] ids' ex cond by (rule refl)
  show ?case
  proof (cases "\<not> k + nat s < length coll \<or> nat max_results \<le> k + nat s")
    case True
    have pc: "page_count max_results (length coll) = Suc j"
      using page_count_last[OF pos less.prems(1) less.prems(2)] True
      by (simp add: k_def s_def)
    have res: "take (k + nat s) coll = take (nat max_results) coll"
      using True smax by auto
    show ?thesis
      using unfold True pc res by (simp add: k_def ids_def W_def W'_def)
  next
    case False
    then have a: "k + nat s < length coll" and b: "k + nat s < nat max_results" by auto
    have s_eq: "nat s = 50" using b k1 by (auto simp add: s_def min_def split: if_splits)
    have kk: "k + nat s = 50 * Suc j" using s_eq by (simp add: k_def)
    have c: "T = cursor_at cur (50 * Suc j)"
      using a by (simp add: cursor_at_def kk T_def)
    have ih: "playlist_loop svc pid max_results (take (50 * Suc j) coll) (cursor_at cur (50 * Suc j))
           (after_requests w (map (full_request pid max_results cur) [0..<Suc j]))
         = Some (take (nat max_results) coll,
                 after_requests w (map (full_request pid max_results cur)
                   [0..<page_count max_results (length coll)]))"
      apply (rule less.hyps)
      using a b kk less.prems by auto
    have "playlist_loop svc pid max_results ids (cursor_at cur k) W
          = playlist_loop svc pid max_results (take (k + nat s) coll) T W'"
      using unfold False by simp
    also have "\<dots> = Some (take (nat max_results) coll,
                 after_requests w (map (full_request pid max_results cur)
                   [0..<page_count max_results (length coll)]))"
      unfolding c kk W'_def by (rule ih)
    finally show ?thesis unfolding ids_def W_def k_def .
  qed
qed


lemma paged_honest:
  "playlist_items (services_of tr (paged coll)) n pid page_size (cursor_at ticks k)
   = honest_page coll ticks page_size k"
  by (simp add: services_of_def paged_def cursor_at_def honest_page_def ticks_def Let_def)




section \<open>Properties of the enumeration behind the Dispatcher\<close>

lemma playlist_loop_bounded:
  assumes "playlist_loop svc pid max_results ids tok w = Some y"
  shows "bounded_pages svc \<longrightarrow> int (length ids) < max_results
         \<longrightarrow> int (length (fst y)) \<le> max_results"
proof (rule playlist_loop.raw_induct[where P = "\<lambda>svc pid max_results ids tok w y.
         bounded_pages svc \<longrightarrow> int (length ids) < max_results
         \<longrightarrow> int (length (fst y)) \<le> max_results", OF _ assms])
  fix loop :: "services \<Rightarrow> string \<Rightarrow> int \<Rightarrow> string list \<Rightarrow> string option \<Rightarrow> world
     \<Rightarrow> (string list \<times> world) option"
    and svc pid max_results ids tok w y
  assume ih: "\<And>svc pid max_results ids tok w y. loop svc pid max_results ids tok w = Some y \<Longrightarrow>
         bounded_pages svc \<longrightarrow> int (length ids) < max_results
         \<longrightarrow> int (length (fst y)) \<le> max_results"
    and body: "(let page_size = min (max_results - int (length ids)) 50;
          w1 = executed (PlaylistItemsList pid page_size tok) w
      in case playlist_items svc (length (requests w)) pid page_size tok of
         PageError e \<Rightarrow> Some (ids, w1)
         | Page items token \<Rightarrow>
             if \<not> truthy token \<or> max_results \<le> int (length (ids @ items))
             then Some (ids @ items, w1)
             else loop svc pid max_results (ids @ items) token w1) = Some y"
  show "bounded_pages svc \<longrightarrow> int (length ids) < max_results
         \<longrightarrow> int (length (fst y)) \<le> max_results"
  proof (intro impI)
    assume b: "bounded_pages svc" and lt: "int (length ids) < max_results"
    define s where "s = min (max_results - int (length ids)) 50"
    have s0: "0 < s" using lt by (simp add: s_def)
    show "int (length (fst y)) \<le> max_results"
    proof (cases "playlist_items svc (length (requests w)) pid s tok")
      case (PageError e)
      then have "y = (ids, executed (PlaylistItemsList pid s tok) w)"
        using body by (simp add: s_def[symmetric] Let_def)
      then show ?thesis using lt by simp
    next
      case (Page items token)
      have "int (length items) \<le> s" using b s0 Page by blast
      then have le: "int (length (ids @ items)) \<le> max_results" by (simp add: s_def)
      show ?thesis
      proof (cases "\<not> truthy token \<or> max_results \<le> int (length (ids @ items))")
        case True
        then have "y = (ids @ items, executed (PlaylistItemsList pid s tok) w)"
          using body Page by (simp add: s_def[symmetric] Let_def)
        then show ?thesis using le by simp
      next
        case False
        then have "loop svc pid max_results (ids @ items) token
                     (executed (PlaylistItemsList pid s tok) w) = Some y"
          using body Page by (simp add: s_def[symmetric] Let_def)
        from ih[OF this] b False show ?thesis by simp
      qed
    qed
  qed
qed

lemma get_playlist_video_ids_bounded:
  assumes "bounded_pages svc" "0 < max_results"
    and "get_playlist_video_ids svc self pid max_results w = Some (Inr ids, w1)"
  shows "int (length ids) \<le> max_results"
proof -
  from assms(3) have "playlist_loop svc pid max_results [] None w = Some (ids, w1)"
    by (auto simp add: get_playlist_video_ids_def split: if_splits option.splits)
  from playlist_loop_bounded[OF this] assms(1,2) show ?thesis by simp
qed

lemma get_channel_video_ids_bounded:
  assumes "bounded_pages svc" "0 < max_results"
    and "get_channel_video_ids svc self cid max_results w = Some (Inr ids, w1)"
  shows "int (length ids) \<le> max_results"
proof (cases "channels_by_id svc (length (requests w)) cid")
  case (ListingError e)
  then show ?thesis using assms(3) by (simp add: get_channel_video_ids_def split: if_splits)
next
  case (Listing xs)
  show ?thesis
  proof (cases xs)
    case Nil
    then show ?thesis using assms(2,3) Listing
      by (auto simp add: get_channel_video_ids_def split: if_splits)
  next
    case (Cons uploads rest)
    then have "get_playlist_video_ids svc self uploads max_results
                 (executed (ChannelsListId cid) w) = Some (Inr ids, w1)"
      using assms(3) Listing by (simp add: get_channel_video_ids_def split: if_splits)
    from get_playlist_video_ids_bounded[OF assms(1,2) this] show ?thesis .
  qed
qed

lemma fetch_once:
  "get_video_transcript svc vid language w = (x, w1) \<Longrightarrow>
   length (fetches w1) = Suc (length (fetches w))"
  by (cases "transcripts svc (length (fetches w)) vid (asked language)")
     (auto simp add: get_video_transcript_def Let_def)

lemma batch_loop_counts:
  "batch_loop svc language out results ids w = (r, w') \<Longrightarrow>
   length (fetches w') \<le> length (fetches w) + length ids
   \<and> (\<forall>rs. r = Inr rs \<longrightarrow> length rs = length results + length ids)"
proof (induction ids arbitrary: results w)
  case Nil
  then show ?case by auto
next
  case (Cons vid rest)
  obtain x w1 where g: "get_video_transcript svc vid language w = (x, w1)"
    by (cases "get_video_transcript svc vid language w")
  note f = fetch_once[OF g]
  show ?case
  proof (cases x)
    case (Inl e)
    then have "r = Inl e" "w' = w1" using Cons.prems g by auto
    then show ?thesis using f by simp
  next
    case (Inr d)
    obtain e w2 where sv: "save_transcript svc out d w1 = (e, w2)"
      by (cases "save_transcript svc out d w1")
    have f2: "fetches w2 = fetches w1" by (rule fetches_save[OF sv])
    show ?thesis
    proof (cases e)
      case (Some ex)
      then have "r = Inl ex" "w' = w2" using Cons.prems g Inr sv by auto
      then show ?thesis using f f2 by simp
    next
      case None
      define w3 where "w3 = (if rest \<noteq> [] then w2\<lparr>sleeps := Suc (sleeps w2)\<rparr> else w2)"
      have fw3: "fetches w3 = fetches w1" by (simp add: w3_def f2)
      have "batch_loop svc language out (results @ [d]) rest w3 = (r, w')"
        using Cons.prems g Inr sv None by (simp add: w3_def Let_def)
      from Cons.IH[OF this] show ?thesis using f fw3 by simp
    qed
  qed
qed

lemma batch_counts:
  assumes "extract_transcripts_batch svc ids language out w = (r, w')"
  shows "length (fetches w') \<le> length (fetches w) + length ids
         \<and> (\<forall>rs. r = Inr rs \<longrightarrow> length rs = length ids)"
proof -
  have loop: "length (fetches w') \<le> length (fetches w) + length ids
         \<and> (\<forall>rs. r = Inr rs \<longrightarrow> length rs = length ids)"
    if "batch_loop svc language out [] ids w0 = (r, w')" "fetches w0 = fetches w" for w0
    using batch_loop_counts[OF that(1)] that(2) by simp
  show ?thesis
  proof (cases out)
    case None
    then show ?thesis using assms loop[of w] by (simp add: extract_transcripts_batch_def)
  next
    case (Some d)
    show ?thesis
    proof (cases "d \<noteq> [] \<and> \<not> path_exists svc d")
      case False
      then show ?thesis using assms Some loop[of w] by (auto simp add: extract_transcripts_batch_def)
    next
      case True
      define w0 where "w0 = w\<lparr>fs_ops := fs_ops w @ [MakeDirs d]\<rparr>"
      have f0: "fetches w0 = fetches w" by (simp add: w0_def)
      show ?thesis
      proof (cases "makedirs svc (length (fs_ops w)) d")
        case None
        then have "batch_loop svc language out [] ids w0 = (r, w')"
          using assms Some True by (simp add: extract_transcripts_batch_def w0_def Let_def)
        from loop[OF this f0] show ?thesis .
      next
        case failed: (Some msg)
        then have "r = Inl (OSError msg)" "w' = w0"
          using assms Some True by (simp_all add: extract_transcripts_batch_def w0_def Let_def)
        then show ?thesis using f0 by simp
      qed
    qed
  qed
qed

lemma fetches_executed [simp]: "fetches (executed r w) = fetches w"
  by (simp add: executed_def)

lemma playlist_loop_fetches:
  assumes "playlist_loop svc pid max_results ids tok w = Some y"
  shows "fetches (snd y) = fetches w"
proof (rule playlist_loop.raw_induct[where P = "\<lambda>svc pid max_results ids tok w y.
         fetches (snd y) = fetches w", OF _ assms])
  fix loop :: "services \<Rightarrow> string \<Rightarrow> int \<Rightarrow> string list \<Rightarrow> string option \<Rightarrow> world
     \<Rightarrow> (string list \<times> world) option"
    and svc pid max_results ids tok w y
  assume ih: "\<And>svc pid max_results ids tok w y. loop svc pid max_results ids tok w = Some y \<Longrightarrow>
         fetches (snd y) = fetches w"
    and body: "(let page_size = min (max_results - int (length ids)) 50;
          w1 = executed (PlaylistItemsList pid page_size tok) w
      in case playlist_items svc (length (requests w)) pid page_size tok of
         PageError e \<Rightarrow> Some (ids, w1)
         | Page items token \<Rightarrow>
             if \<not> truthy token \<or> max_results \<le> int (length (ids @ items))
             then Some (ids @ items, w1)
             else loop svc pid max_results (ids @ items) token w1) = Some y"
  define s where "s = min (max_results - int (length ids)) 50"
  show "fetches (snd y) = fetches w"
  proof (cases "playlist_items svc (length (requests w)) pid s tok")
    case (PageError e)
    then have "y = (ids, executed (PlaylistItemsList pid s tok) w)"
      using body by (simp add: s_def[symmetric] Let_def)
    then show ?thesis by simp
  next
    case (Page items token)
    show ?thesis
    proof (cases "\<not> truthy token \<or> max_results \<le> int (length (ids @ items))")
      case True
      then have "y = (ids @ items, executed (PlaylistItemsList pid s tok) w)"
        using body Page by (simp add: s_def[symmetric] Let_def)
      then show ?thesis by simp
    next
      case False
      then have "loop svc pid max_results (ids @ items) token
                   (executed (PlaylistItemsList pid s tok) w) = Some y"
        using body Page by (simp add: s_def[symmetric] Let_def)
      from ih[OF this] show ?thesis by simp
    qed
  qed
qed

lemma get_playlist_video_ids_fetches:
  assumes "get_playlist_video_ids svc self pid max_results w = Some (x, w1)"
  shows "fetches w1 = fetches w"
proof (cases "truthy (api_key self)")
  case False
  then show ?thesis using assms by (simp add: get_playlist_video_ids_def)
next
  case True
  then obtain ids where "playlist_loop svc pid max_results [] None w = Some (ids, w1)"
    using assms by (auto simp add: get_playlist_video_ids_def split: option.splits)
  from playlist_loop_fetches[OF this] show ?thesis by simp
qed

lemma get_channel_video_ids_fetches:
  assumes "get_channel_video_ids svc self cid max_results w = Some (x, w1)"
  shows "fetches w1 = fetches w"
proof (cases "truthy (api_key self)")
  case False
  then show ?thesis using assms by (simp add: get_channel_video_ids_def)
next
  case True
  show ?thesis
  proof (cases "channels_by_id svc (length (requests w)) cid")
    case (ListingError e)
    then show ?thesis using assms True by (auto simp add: get_channel_video_ids_def)
  next
    case (Listing xs)
    show ?thesis
    proof (cases xs)
      case Nil
      then show ?thesis using assms True Listing by (auto simp add: get_channel_video_ids_def)
    next
      case (Cons uploads rest)
      then have "get_playlist_video_ids svc self uploads max_results
                   (executed (ChannelsListId cid) w) = Some (x, w1)"
        using assms True Listing by (simp add: get_channel_video_ids_def)
      from get_playlist_video_ids_fetches[OF this] show ?thesis by simp
    qed
  qed
qed

lemma channel_id_of_fetches:
  assumes "channel_id_of svc url w = (x, w1)"
  shows "fetches w1 = fetches w"
  using assms
  by (auto simp add: channel_id_of_def Let_def split: if_splits listing_reply.splits list.splits)

lemma transcripts_of_counts:
  assumes en: "\<And>x w1. enumerated = Some (x, w1) \<Longrightarrow>
                 fetches w1 = fetches w \<and> (\<forall>ids. x = Inr ids \<longrightarrow> length ids \<le> 50)"
    and wrap: "wrap = PlaylistResult \<or> wrap = ChannelResult"
    and run: "transcripts_of svc wrap ident language enumerated = Some (r, w')"
  shows "length (fetches w') \<le> length (fetches w) + 50
         \<and> (\<forall>i results. r = Inr (PlaylistResult i results) \<or> r = Inr (ChannelResult i results)
              \<longrightarrow> length results \<le> 50)"
proof -
  from run obtain x w1 where e: "enumerated = Some (x, w1)"
    by (cases enumerated) (auto simp add: transcripts_of_def)
  from en[OF e] have f: "fetches w1 = fetches w"
    and b: "\<forall>ids. x = Inr ids \<longrightarrow> length ids \<le> 50" by auto
  show ?thesis
  proof (cases x)
    case (Inl ex)
    then have "r = Inl ex" "w' = w1" using run e by (auto simp add: transcripts_of_def)
    then show ?thesis using f by simp
  next
    case (Inr ids)
    then have l: "length ids \<le> 50" using b by simp
    obtain r0 w2 where bt: "extract_transcripts_batch svc ids language None w1 = (r0, w2)"
      by (cases "extract_transcripts_batch svc ids language None w1")
    note c = batch_counts[OF bt]
    show ?thesis
    proof (cases r0)
      case (Inl ex)
      then have "r = Inl ex" "w' = w2" using run e Inr bt by (auto simp add: transcripts_of_def)
      then show ?thesis using c f l by simp
    next
      case rs: (Inr results)
      then have "r = Inr (wrap ident results)" "w' = w2"
        using run e Inr bt by (auto simp add: transcripts_of_def)
      then show ?thesis using c f l rs wrap by auto
    qed
  qed
qed

lemma get_playlist_video_ids_honest:
  assumes "truthy (api_key self)"
    and "0 < max_results"
    and "\<forall>n page_size k. 0 < page_size \<and> page_size \<le> 50 \<and> k \<le> length coll \<longrightarrow>
            playlist_items svc n playlist_id page_size (cursor_at cur k)
            = honest_page coll cur page_size k"
    and "\<forall>k. 0 < k \<longrightarrow> cur k \<noteq> []"
  shows "get_playlist_video_ids svc self playlist_id max_results w
        = Some (Inr (take (nat max_results) coll),
                after_requests w (map (full_request playlist_id max_results cur)
                  [0..<page_count max_results (length coll)]))"
proof -
  have "playlist_loop svc playlist_id max_results [] None w
        = Some (take (nat max_results) coll,
                after_requests w (map (full_request playlist_id max_results cur)
                  [0..<page_count max_results (length coll)]))"
    using playlist_loop_honest[OF assms(2) assms(3) assms(4), of 0 w] assms(2)
    by (simp add: cursor_at_def after_requests_def)
  then show ?thesis
    using assms(1) by (simp add: get_playlist_video_ids_def)
qed

text \<open>
  C10. For a URL that is not taken for a video URL, and an endpoint that honours
  \<open>maxResults\<close>: for a playlist URL the Dispatcher runs the batch on the result of
  \<open>get_playlist_video_ids\<close> called with the cap 50, for a channel URL on the result of
  \<open>get_channel_video_ids\<close> called with the cap 50, and a list that either returns has
  at most 50 identifiers. So whenever \<open>extract_from_url\<close> returns, it has fetched at most
  50 transcripts, and a playlist or channel result holds at most 50 of them. Neither
  \<open>url\<close> nor \<open>language\<close> changes the cap.
\<close>

theorem dispatcher_enumerates_at_most_50:
  assumes b: "bounded_pages svc"
    and v1: "\<not> contains ''youtube.com/watch'' url"
    and v2: "\<not> contains ''youtu.be/'' url"
  shows "(contains ''youtube.com/playlist'' url \<and> search_list_param url = Some playlist_id \<longrightarrow>
            extract_from_url svc self url language w
              = transcripts_of svc PlaylistResult playlist_id language
                  (get_playlist_video_ids svc self playlist_id 50 w)
          \<and> (\<forall>ids w1. get_playlist_video_ids svc self playlist_id 50 w = Some (Inr ids, w1)
                \<longrightarrow> length ids \<le> 50))
       \<and> (\<not> contains ''youtube.com/playlist'' url
          \<and> (contains ''youtube.com/channel/'' url \<or> contains ''youtube.com/c/'' url
               \<or> contains ''youtube.com/user/'' url)
          \<and> truthy (api_key self) \<and> channel_id_of svc url w = (Inr channel_id, w0) \<longrightarrow>
            extract_from_url svc self url language w
              = transcripts_of svc ChannelResult channel_id language
                  (get_channel_video_ids svc self channel_id 50 w0)
          \<and> (\<forall>ids w1. get_channel_video_ids svc self channel_id 50 w0 = Some (Inr ids, w1)
                \<longrightarrow> length ids \<le> 50))
       \<and> (\<forall>r w'. extract_from_url svc self url language w = Some (r, w') \<longrightarrow>
            length (fetches w') \<le> length (fetches w) + 50
          \<and> (\<forall>ident results.
                r = Inr (PlaylistResult ident results) \<or> r = Inr (ChannelResult ident results)
                \<longrightarrow> length results \<le> 50))"
proof -
  have p1: "contains ''youtube.com/playlist'' url \<and> search_list_param url = Some playlist_id \<longrightarrow>
            extract_from_url svc self url language w
              = transcripts_of svc PlaylistResult playlist_id language
                  (get_playlist_video_ids svc self playlist_id 50 w)"
    using v1 v2 by (simp add: extract_from_url_def)
  have p2: "\<forall>ids w1. get_playlist_video_ids svc self playlist_id 50 w = Some (Inr ids, w1)
                \<longrightarrow> length ids \<le> 50"
  proof (intro allI impI)
    fix ids w1
    assume "get_playlist_video_ids svc self playlist_id 50 w = Some (Inr ids, w1)"
    from get_playlist_video_ids_bounded[OF b _ this] show "length ids \<le> 50" by simp
  qed
  have c1: "\<not> contains ''youtube.com/playlist'' url
          \<and> (contains ''youtube.com/channel/'' url \<or> contains ''youtube.com/c/'' url
               \<or> contains ''youtube.com/user/'' url)
          \<and> truthy (api_key self) \<and> channel_id_of svc url w = (Inr channel_id, w0) \<longrightarrow>
            extract_from_url svc self url language w
              = transcripts_of svc ChannelResult channel_id language
                  (get_channel_video_ids svc self channel_id 50 w0)"
    using v1 v2 by (simp add: extract_from_url_def)
  have c2: "\<forall>ids w1. get_channel_video_ids svc self channel_id 50 w0 = Some (Inr ids, w1)
                \<longrightarrow> length ids \<le> 50"
  proof (intro allI impI)
    fix ids w1
    assume "get_channel_video_ids svc self channel_id 50 w0 = Some (Inr ids, w1)"
    from get_channel_video_ids_bounded[OF b _ this] show "length ids \<le> 50" by simp
  qed
  have o: "\<forall>r w'. extract_from_url svc self url language w = Some (r, w') \<longrightarrow>
            length (fetches w') \<le> length (fetches w) + 50
          \<and> (\<forall>ident results.
                r = Inr (PlaylistResult ident results) \<or> r = Inr (ChannelResult ident results)
                \<longrightarrow> length results \<le> 50)"
  proof (intro allI impI)
    fix r w'
    assume run: "extract_from_url svc self url language w = Some (r, w')"
    have pl: "\<And>pid x w1. get_playlist_video_ids svc self pid 50 w = Some (x, w1) \<Longrightarrow>
                fetches w1 = fetches w \<and> (\<forall>ids. x = Inr ids \<longrightarrow> length ids \<le> 50)"
    proof -
      fix pid x w1
      assume g: "get_playlist_video_ids svc self pid 50 w = Some (x, w1)"
      have "\<forall>ids. x = Inr ids \<longrightarrow> length ids \<le> 50"
      proof (intro allI impI)
        fix ids assume "x = Inr ids"
        with g have "get_playlist_video_ids svc self pid 50 w = Some (Inr ids, w1)" by simp
        from get_playlist_video_ids_bounded[OF b _ this] show "length ids \<le> 50" by simp
      qed
      then show "fetches w1 = fetches w \<and> (\<forall>ids. x = Inr ids \<longrightarrow> length ids \<le> 50)"
        using get_playlist_video_ids_fetches[OF g] by simp
    qed
    have ch: "\<And>cid wa x w1. fetches wa = fetches w \<Longrightarrow>
                get_channel_video_ids svc self cid 50 wa = Some (x, w1) \<Longrightarrow>
                fetches w1 = fetches w \<and> (\<forall>ids. x = Inr ids \<longrightarrow> length ids \<le> 50)"
    proof -
      fix cid wa x w1
      assume fa: "fetches wa = fetches w"
        and g: "get_channel_video_ids svc self cid 50 wa = Some (x, w1)"
      have "\<forall>ids. x = Inr ids \<longrightarrow> length ids \<le> 50"
      proof (intro allI impI)
        fix ids assume "x = Inr ids"
        with g have "get_channel_video_ids svc self cid 50 wa = Some (Inr ids, w1)" by simp
        from get_channel_video_ids_bounded[OF b _ this] show "length ids \<le> 50" by simp
      qed
      then show "fetches w1 = fetches w \<and> (\<forall>ids. x = Inr ids \<longrightarrow> length ids \<le> 50)"
        using get_channel_video_ids_fetches[OF g] fa by simp
    qed
    show "length (fetches w') \<le> length (fetches w) + 50
            \<and> (\<forall>ident results.
                  r = Inr (PlaylistResult ident results) \<or> r = Inr (ChannelResult ident results)
                  \<longrightarrow> length results \<le> 50)"
    proof (cases "contains ''youtube.com/playlist'' url")
      case True
      show ?thesis
      proof (cases "search_list_param url")
        case None
        then have "r = Inr (ErrorResult ''Invalid YouTube playlist URL'')" "w' = w"
          using run v1 v2 True by (simp_all add: extract_from_url_def)
        then show ?thesis by simp
      next
        case (Some pid)
        then have "transcripts_of svc PlaylistResult pid language
                    (get_playlist_video_ids svc self pid 50 w) = Some (r, w')"
          using run v1 v2 True by (simp add: extract_from_url_def)
        from transcripts_of_counts[OF pl _ this] show ?thesis by simp
      qed
    next
      case False
      show ?thesis
      proof (cases "contains ''youtube.com/channel/'' url \<or> contains ''youtube.com/c/'' url
                 \<or> contains ''youtube.com/user/'' url")
        case no: False
        then have "r = Inr (ErrorResult ''URL not recognized as YouTube video, playlist, or channel'')"
          "w' = w"
          using run v1 v2 False by (simp_all add: extract_from_url_def)
        then show ?thesis by simp
      next
        case yes: True
        show ?thesis
        proof (cases "truthy (api_key self)")
          case nk: False
          then have "r = Inr (ErrorResult ''YouTube API key required for channel operations'')"
            "w' = w"
            using run v1 v2 False yes by (simp_all add: extract_from_url_def)
          then show ?thesis by simp
        next
          case key: True
          obtain c wa where cw: "channel_id_of svc url w = (c, wa)"
            by (cases "channel_id_of svc url w")
          note fa = channel_id_of_fetches[OF cw]
          show ?thesis
          proof (cases c)
            case (Inl msg)
            then have "r = Inr (ErrorResult msg)" "w' = wa"
              using run v1 v2 False yes key cw by (simp_all add: extract_from_url_def)
            then show ?thesis using fa by simp
          next
            case (Inr cid)
            then have "transcripts_of svc ChannelResult cid language
                    (get_channel_video_ids svc self cid 50 wa) = Some (r, w')"
              using run v1 v2 False yes key cw by (simp add: extract_from_url_def)
            from transcripts_of_counts[OF ch[OF fa] _ this] show ?thesis by simp
          qed
        qed
      qed
    qed
  qed
  show ?thesis using p1 p2 c1 c2 o by blast
qed

theorem dispatcher_enumerates_at_most_50_witness:
  "\<not> contains ''youtube.com/watch'' playlist_url
   \<and> \<not> contains ''youtu.be/'' playlist_url
   \<and> contains ''youtube.com/playlist'' playlist_url
   \<and> search_list_param playlist_url = Some ''PL''
   \<and> length (videos 120) = 120
   \<and> get_playlist_video_ids (services_of two_segments (paged (videos 120)))
        \<lparr>api_key = Some ''k''\<rparr> ''PL'' 50 fresh
      = Some (Inr (take 50 (videos 120)), fresh\<lparr>requests := [PlaylistItemsList ''PL'' 50 None]\<rparr>)
   \<and> (\<exists>results w'.
         extract_from_url (services_of two_segments (paged (videos 120)))
           \<lparr>api_key = Some ''k''\<rparr> playlist_url None fresh
         = Some (Inr (PlaylistResult ''PL'' results), w')
       \<and> length results \<le> 50
       \<and> length (fetches w') \<le> length (fetches fresh) + 50)"
proof -
  let ?svc = "services_of two_segments (paged (videos 120))"
  let ?self = "\<lparr>api_key = Some ''k''\<rparr>"
  let ?ids = "take 50 (videos 120)"
  let ?w1 = "fresh\<lparr>requests := [PlaylistItemsList ''PL'' 50 None]\<rparr>"
  have v1: "\<not> contains ''youtube.com/watch'' playlist_url" by (simp add: playlist_url_def)
  have v2: "\<not> contains ''youtu.be/'' playlist_url" by (simp add: playlist_url_def)
  have v3: "contains ''youtube.com/playlist'' playlist_url" by (simp add: playlist_url_def)
  have v4: "search_list_param playlist_url = Some ''PL''"
    by (simp add: playlist_url_def list_param_here_def)
  have l: "length (videos 120) = 120" by (simp add: videos_def)
  have b: "bounded_pages ?svc"
    by (auto simp add: services_of_def paged_def Let_def)
  have k: "truthy (api_key ?self)" by simp
  have t: "\<forall>k. 0 < k \<longrightarrow> ticks k \<noteq> []" by (simp add: ticks_def)
  have h: "\<forall>n page_size k. 0 < page_size \<and> page_size \<le> 50 \<and> k \<le> length (videos 120) \<longrightarrow>
            playlist_items ?svc n ''PL'' page_size (cursor_at ticks k)
            = honest_page (videos 120) ticks page_size k"
    by (simp add: paged_honest)
  have pc: "page_count 50 120 = 1" by (simp add: page_count_def)
  have p: "(0::int) < 50" by simp
  have en: "get_playlist_video_ids ?svc ?self ''PL'' 50 fresh = Some (Inr ?ids, ?w1)"
    using get_playlist_video_ids_honest[OF k p h t, where w = fresh]
    by (simp add: l pc after_requests_def full_request_def cursor_at_def fresh_def)
  have "\<forall>i<length ?ids. caught (transcripts ?svc (length (fetches ?w1) + i) (?ids ! i) (asked None))"
    by (simp add: services_of_def two_segments_def caught_def)
  from batch_loop_caught[OF this, of None "[]"] obtain results w' where
    bl: "batch_loop ?svc None None [] ?ids ?w1 = (Inr results, w')"
    by blast
  note d = dispatcher_enumerates_at_most_50[OF b v1 v2, where playlist_id = "''PL''" and self = "?self"
      and language = None and w = fresh]
  from d v3 v4 have "extract_from_url ?svc ?self playlist_url None fresh
      = transcripts_of ?svc PlaylistResult ''PL'' None (get_playlist_video_ids ?svc ?self ''PL'' 50 fresh)"
    by blast
  then have run: "extract_from_url ?svc ?self playlist_url None fresh
      = Some (Inr (PlaylistResult ''PL'' results), w')"
    using bl by (simp add: en transcripts_of_def extract_transcripts_batch_def)
  from d run have "length (fetches w') \<le> length (fetches fresh) + 50 \<and> length results \<le> 50"
    by blast
  then show ?thesis using v1 v2 v3 v4 l en run by blast
qed

section \<open>Properties of the Transcript Fetcher\<close>

lemma sub_spaces_word:
  "sub_spaces s = takeWhile (\<lambda>x. \<not> is_space x) s @ sub_spaces (dropWhile (\<lambda>x. \<not> is_space x) s)"
  by (induction s) simp_all

lemma sub_spaces_space:
  "s \<noteq> [] \<Longrightarrow> is_space (hd s) \<Longrightarrow>
   sub_spaces s = CHR '' '' # sub_spaces (dropWhile is_space s)"
  by (cases s) simp_all

lemma sub_spaces_no_lead:
  "s = [] \<or> \<not> is_space (hd s) \<Longrightarrow> dropWhile is_space (sub_spaces s) = sub_spaces s"
  by (cases s) auto

lemma space_is_space [simp]: "is_space CHR '' ''"
  by (simp add: is_space_def)

lemma rstrip_append:
  "rev (dropWhile is_space (rev (a @ b)))
   = (if rev (dropWhile is_space (rev b)) = [] then rev (dropWhile is_space (rev a))
      else a @ rev (dropWhile is_space (rev b)))"
  by (auto simp add: dropWhile_append dropWhile_eq_Nil_conv)

lemma rstrip_word:
  "a \<noteq> [] \<Longrightarrow> \<not> is_space (last a) \<Longrightarrow> rev (dropWhile is_space (rev a)) = a"
  by (cases a rule: rev_cases) auto

lemma words_of_Nil:
  assumes "dropWhile is_space s = []"
  shows "words_of s = []"
  by (subst words_of.simps) (simp only: assms list.case)

lemma words_of_Cons:
  assumes "dropWhile is_space s = c # cs"
  shows "words_of s = takeWhile (\<lambda>x. \<not> is_space x) (c # cs)
                      # words_of (dropWhile (\<lambda>x. \<not> is_space x) (c # cs))"
  by (subst words_of.simps) (simp only: assms list.case)

lemma words_of_nonempty: "w \<in> set (words_of s) \<Longrightarrow> w \<noteq> []"
proof (induction s arbitrary: w rule: words_of.induct)
  case (1 s)
  show ?case
  proof (cases "dropWhile is_space s")
    case Nil
    show ?thesis using "1.prems" by (simp add: words_of_Nil[OF Nil])
  next
    case (Cons c cs)
    have c: "\<not> is_space c" using Cons hd_dropWhile[of is_space s] by auto
    from "1.prems" have "w = takeWhile (\<lambda>x. \<not> is_space x) (c # cs)
        \<or> w \<in> set (words_of (dropWhile (\<lambda>x. \<not> is_space x) (c # cs)))"
      by (simp add: words_of_Cons[OF Cons])
    then show ?thesis
    proof
      assume "w = takeWhile (\<lambda>x. \<not> is_space x) (c # cs)"
      then show ?thesis using c by simp
    next
      assume "w \<in> set (words_of (dropWhile (\<lambda>x. \<not> is_space x) (c # cs)))"
      from "1.IH"[OF Cons this] show ?thesis .
    qed
  qed
qed

lemma py_join_nonempty:
  "ws \<noteq> [] \<Longrightarrow> \<forall>w\<in>set ws. w \<noteq> [] \<Longrightarrow> py_join sep ws \<noteq> []"
  by (induction sep ws rule: py_join.induct) auto

lemma py_join_Cons:
  "py_join sep (w # ws) = (if ws = [] then w else w @ sep @ py_join sep ws)"
  by (cases ws) simp_all

lemma strip_sub_spaces:
  "strip (sub_spaces s) = py_join '' '' (words_of s)"
proof (induction s rule: words_of.induct)
  case (1 s)
  define s' where "s' = dropWhile is_space s"
  have lead: "s' = [] \<or> \<not> is_space (hd s')"
    using hd_dropWhile[of is_space s] by (auto simp add: s'_def)
  have "dropWhile is_space (sub_spaces s) = sub_spaces s'"
  proof (cases "s = [] \<or> \<not> is_space (hd s)")
    case True
    then have "s' = s" by (cases s) (auto simp add: s'_def)
    then show ?thesis using sub_spaces_no_lead[OF True] by simp
  next
    case False
    then have "sub_spaces s = CHR '' '' # sub_spaces s'"
      using sub_spaces_space[of s] by (auto simp add: s'_def)
    then show ?thesis using sub_spaces_no_lead[OF lead] by simp
  qed
  then have st: "strip (sub_spaces s) = rev (dropWhile is_space (rev (sub_spaces s')))"
    by (simp add: strip_def)
  show ?case
  proof (cases s')
    case Nil
    then have "words_of s = []" by (simp add: words_of_Nil s'_def)
    then show ?thesis using st Nil by simp
  next
    case (Cons c cs)
    then have c: "\<not> is_space c" using lead by simp
    define w where "w = takeWhile (\<lambda>x. \<not> is_space x) s'"
    define rest where "rest = dropWhile (\<lambda>x. \<not> is_space x) s'"
    have w1: "w \<noteq> []" using Cons c by (simp add: w_def)
    have w2: "\<not> is_space (last w)"
      using w1 set_takeWhileD[of "last w" "\<lambda>x. \<not> is_space x" s'] last_in_set[OF w1]
      by (auto simp add: w_def)
    have "dropWhile is_space s = c # cs" using Cons by (simp add: s'_def)
    from words_of_Cons[OF this] have ws: "words_of s = w # words_of rest"
      by (simp add: w_def rest_def Cons)
    have ss: "sub_spaces s' = w @ sub_spaces rest"
      unfolding w_def rest_def by (rule sub_spaces_word)
    have ih: "strip (sub_spaces rest) = py_join '' '' (words_of rest)"
      using "1.IH"[of c cs] Cons by (simp add: s'_def rest_def)
    have ne: "\<forall>x\<in>set (words_of rest). x \<noteq> []" using words_of_nonempty by blast
    show ?thesis
    proof (cases "rest = []")
      case True
      then have "words_of rest = []" by (simp add: words_of_Nil)
      then show ?thesis using st ss True ws rstrip_word[OF w1 w2] by simp
    next
      case False
      have "is_space (hd rest)"
        using False hd_dropWhile[of "\<lambda>x. \<not> is_space x" s'] by (auto simp add: rest_def)
      then have sr: "sub_spaces rest = CHR '' '' # sub_spaces (dropWhile is_space rest)"
        using sub_spaces_space[OF False] by simp
      define Y where "Y = sub_spaces (dropWhile is_space rest)"
      have "dropWhile is_space rest = [] \<or> \<not> is_space (hd (dropWhile is_space rest))"
        using hd_dropWhile[of is_space rest] by auto
      from sub_spaces_no_lead[OF this] have "dropWhile is_space Y = Y" by (simp add: Y_def)
      then have "strip (sub_spaces rest) = rev (dropWhile is_space (rev Y))"
        by (simp add: sr strip_def Y_def[symmetric])
      then have J: "rev (dropWhile is_space (rev Y)) = py_join '' '' (words_of rest)"
        using ih by simp
      have full: "rev (dropWhile is_space (rev (w @ [CHR '' ''] @ Y)))
            = (if rev (dropWhile is_space (rev Y)) = [] then w
               else w @ [CHR '' ''] @ rev (dropWhile is_space (rev Y)))"
        using rstrip_word[OF w1 w2]
        by (simp only: rstrip_append[of w "[CHR '' ''] @ Y"] rstrip_append[of "[CHR '' '']" Y])
           (simp add: rstrip_word[OF w1 w2])
      show ?thesis
      proof (cases "words_of rest = []")
        case True
        then show ?thesis using st ss sr full J ws by (simp add: Y_def[symmetric])
      next
        case nonempty: False
        then have "py_join '' '' (words_of rest) \<noteq> []"
          using py_join_nonempty ne by blast
        then show ?thesis
          using st ss sr full J ws nonempty by (simp add: Y_def[symmetric] py_join_Cons)
      qed
    qed
  qed
qed

lemma words_of_no_space: "w \<in> set (words_of s) \<Longrightarrow> c \<in> set w \<Longrightarrow> \<not> is_space c"
proof (induction s arbitrary: w rule: words_of.induct)
  case (1 s)
  show ?case
  proof (cases "dropWhile is_space s")
    case Nil
    show ?thesis using "1.prems" by (simp add: words_of_Nil[OF Nil])
  next
    case (Cons d ds)
    from "1.prems" have "w = takeWhile (\<lambda>x. \<not> is_space x) (d # ds)
        \<or> w \<in> set (words_of (dropWhile (\<lambda>x. \<not> is_space x) (d # ds)))"
      by (simp add: words_of_Cons[OF Cons])
    then show ?thesis
    proof
      assume "w = takeWhile (\<lambda>x. \<not> is_space x) (d # ds)"
      then show ?thesis using "1.prems"(2) set_takeWhileD[of c "\<lambda>x. \<not> is_space x" "d # ds"] by blast
    next
      assume "w \<in> set (words_of (dropWhile (\<lambda>x. \<not> is_space x) (d # ds)))"
      from "1.IH"[OF Cons this "1.prems"(2)] show ?thesis .
    qed
  qed
qed

lemma filter_takeWhile_space: "filter (\<lambda>c. \<not> is_space c) (takeWhile is_space s) = []"
  by (induction s) simp_all

lemma filter_takeWhile_word:
  "filter (\<lambda>c. \<not> is_space c) (takeWhile (\<lambda>x. \<not> is_space x) s) = takeWhile (\<lambda>x. \<not> is_space x) s"
  by (induction s) simp_all

lemma concat_words_of: "concat (words_of s) = filter (\<lambda>c. \<not> is_space c) s"
proof (induction s rule: words_of.induct)
  case (1 s)
  have split1: "filter (\<lambda>c. \<not> is_space c) s = filter (\<lambda>c. \<not> is_space c) (dropWhile is_space s)"
    using filter_takeWhile_space[of s] takeWhile_dropWhile_id[of is_space s]
      filter_append[of "\<lambda>c. \<not> is_space c" "takeWhile is_space s" "dropWhile is_space s"]
    by simp
  show ?case
  proof (cases "dropWhile is_space s")
    case Nil
    show ?thesis using split1 by (simp add: words_of_Nil[OF Nil] Nil)
  next
    case (Cons d ds)
    have "filter (\<lambda>c. \<not> is_space c) (d # ds)
          = takeWhile (\<lambda>x. \<not> is_space x) (d # ds)
            @ filter (\<lambda>c. \<not> is_space c) (dropWhile (\<lambda>x. \<not> is_space x) (d # ds))"
      using filter_takeWhile_word[of "d # ds"] takeWhile_dropWhile_id[of "\<lambda>x. \<not> is_space x" "d # ds"]
        filter_append[of "\<lambda>c. \<not> is_space c" "takeWhile (\<lambda>x. \<not> is_space x) (d # ds)"
                         "dropWhile (\<lambda>x. \<not> is_space x) (d # ds)"]
      by metis
    then show ?thesis
      using "1.IH"[OF Cons] split1 by (simp only: words_of_Cons[OF Cons] Cons concat.simps)
  qed
qed

text \<open>
  C7. When the fetch succeeds, the \<open>transcript\<close> of the result is the words of the segment
  texts joined, in their order, with single spaces: the words joined by single spaces,
  with no whitespace before the first or after the last. The words are not empty, hold
  no whitespace, and together are the characters of the joined texts that are not
  whitespace. In particular segment texts that join to \<open>a\n\n  b   c\<close> give \<open>a b c\<close>.
\<close>

theorem transcript_is_joined_and_normalized:
  assumes "transcripts svc (length (fetches w)) vid (asked language) = Segments texts"
  shows "get_video_transcript svc vid language w
         = (Inr \<lparr>video_id = vid,
                 transcript = Some (py_join '' '' (words_of (py_join '' '' texts))),
                 error = None\<rparr>,
            w\<lparr>fetches := fetches w @ [(vid, asked language)]\<rparr>)
       \<and> (\<forall>x\<in>set (words_of (py_join '' '' texts)). x \<noteq> [] \<and> (\<forall>c\<in>set x. \<not> is_space c))
       \<and> concat (words_of (py_join '' '' texts))
          = filter (\<lambda>c. \<not> is_space c) (py_join '' '' texts)
       \<and> (py_join '' '' texts = ''a'' @ [CHR 0x0A, CHR 0x0A] @ ''  b   c''
            \<longrightarrow> full_transcript texts = ''a b c'')"
proof -
  have "full_transcript texts = py_join '' '' (words_of (py_join '' '' texts))"
    by (simp add: full_transcript_def strip_sub_spaces)
  then have a: "get_video_transcript svc vid language w
         = (Inr \<lparr>video_id = vid,
                 transcript = Some (py_join '' '' (words_of (py_join '' '' texts))),
                 error = None\<rparr>,
            w\<lparr>fetches := fetches w @ [(vid, asked language)]\<rparr>)"
    using assms by (simp add: get_video_transcript_def Let_def)
  have b: "py_join '' '' texts = ''a'' @ [CHR 0x0A, CHR 0x0A] @ ''  b   c''
            \<longrightarrow> full_transcript texts = ''a b c''"
    by (simp add: full_transcript_def strip_def is_space_def)
  have c: "\<forall>x\<in>set (words_of (py_join '' '' texts)). x \<noteq> [] \<and> (\<forall>c\<in>set x. \<not> is_space c)"
    using words_of_nonempty words_of_no_space by blast
  have d: "concat (words_of (py_join '' '' texts))
          = filter (\<lambda>c. \<not> is_space c) (py_join '' '' texts)"
    by (rule concat_words_of)
  show ?thesis using a b c d by blast
qed

theorem transcript_is_joined_and_normalized_witness:
  "transcripts (services_of (scripted [Segments broken_lines]) (paged [])) (length (fetches fresh))
     ''v'' (asked None) = Segments broken_lines
   \<and> py_join '' '' broken_lines = ''a'' @ [CHR 0x0A, CHR 0x0A] @ ''  b   c''
   \<and> get_video_transcript (services_of (scripted [Segments broken_lines]) (paged [])) ''v'' None fresh
      = (Inr \<lparr>video_id = ''v'', transcript = Some ''a b c'', error = None\<rparr>,
         fresh\<lparr>fetches := [(''v'', None)]\<rparr>)"
proof -
  let ?svc = "services_of (scripted [Segments broken_lines]) (paged [])"
  have h: "transcripts ?svc (length (fetches fresh)) ''v'' (asked None) = Segments broken_lines"
    by (simp add: services_of_def scripted_def fresh_def)
  have j: "py_join '' '' broken_lines = ''a'' @ [CHR 0x0A, CHR 0x0A] @ ''  b   c''"
    by (simp add: broken_lines_def)
  have e: "py_join '' '' (words_of (py_join '' '' broken_lines)) = full_transcript broken_lines"
    by (simp add: full_transcript_def strip_sub_spaces)
  from transcript_is_joined_and_normalized[OF h] j
  have "get_video_transcript ?svc ''v'' None fresh
         = (Inr \<lparr>video_id = ''v'',
                 transcript = Some (py_join '' '' (words_of (py_join '' '' broken_lines))),
                 error = None\<rparr>,
            fresh\<lparr>fetches := fetches fresh @ [(''v'', asked None)]\<rparr>)"
    and "full_transcript broken_lines = ''a b c''"
    by blast+
  then have "get_video_transcript ?svc ''v'' None fresh
      = (Inr \<lparr>video_id = ''v'', transcript = Some ''a b c'', error = None\<rparr>,
         fresh\<lparr>fetches := [(''v'', None)]\<rparr>)"
    by (simp add: e asked_def fresh_def)
  then show ?thesis using h j by blast
qed

end
